theory Spec2Isabelle
  imports Main "HOL-Library.Word" "HOL-Library.Sublist"
begin

section \<open>The lens side of the body/lens serial handshake (fakelens.cpp)\<close>

text \<open>
  The program is one thread that polls input lines and the SPI status register, drives
  one output line and the SPI data register. The model threads a record through the
  code: what the hardware will show on each future read (the inputs), and the list of
  everything the code has done to the hardware so far (the trace).
\<close>

subsection \<open>Data\<close>

type_synonym uint8 = "8 word"

text \<open>The pin names of common.h; only their identity matters here.\<close>

datatype pin = SLEEP | BODY_ACK | LENS_ACK | FOCUS | SHUTTER | CLK | DATA_MISO | DATA_MOSI

datatype direction = INPUT | OUTPUT

text \<open>The bits of the SPI control register that the code names.\<close>

datatype spcr_bit = SPE | DORD | CPOL | CPHA

text \<open>
  One entry per hardware access of the source, in program order. \<open>Saw p v\<close> is the exit
  of a polling loop on pin \<open>p\<close>, which saw level \<open>v\<close>; \<open>Saw_SPIF\<close> is the exit of a
  polling loop on the SPIF bit of SPSR.
\<close>

datatype event =
    Arduino_init
  | Serial_begin nat
  | Pin_mode pin direction
  | Pin_write pin bool
  | SPCR_write "spcr_bit list"
  | SPDR_write uint8
  | SPDR_read uint8
  | Saw pin bool
  | Saw_SPIF
  | Delay_us nat
  | Delay_ms nat

text \<open>
  \<open>sleep_in\<close>: the successive values of \<open>digitalRead(SLEEP) != 0\<close>;
  \<open>body_ack_in\<close>: the successive values of \<open>BODY_ACK_PIN & BODY_ACK_HIGH\<close>, as a truth value;
  \<open>spi_in\<close>: the successive values of the SPIF bit of SPSR, \<open>None\<close> when it is clear and
  \<open>Some b\<close> when it is set, \<open>b\<close> being the byte the body has just clocked into SPDR;
  \<open>rx_buf\<close>: what a read of SPDR returns.
  The input lists are finite: a polling loop that exhausts its list never sees the level
  it waits for.
\<close>

record hw =
  sleep_in :: "bool list"
  body_ack_in :: "bool list"
  spi_in :: "uint8 option list"
  rx_buf :: uint8
  trace :: "event list"

text \<open>
  \<open>Hang\<close>: a polling loop spins forever. \<open>OutOfBounds\<close>: a read past the end of the array
  behind the \<open>values\<close> pointer.
\<close>

datatype fault = Hang | OutOfBounds

type_synonym proc = "hw \<Rightarrow> fault + hw"

subsection \<open>Sequencing and the primitive accesses\<close>

fun run :: "proc list \<Rightarrow> proc" where
  "run [] s = Inr s"
| "run (f # fs) s = (case f s of Inl e \<Rightarrow> Inl e | Inr s' \<Rightarrow> run fs s')"

definition emit :: "event \<Rightarrow> hw \<Rightarrow> hw" where
  "emit e s = s\<lparr>trace := trace s @ [e]\<rparr>"

definition act :: "event \<Rightarrow> proc" where
  "act e s = Inr (emit e s)"

text \<open>\<open>while (level != want) {}\<close> on a list of samples: what is left after the exit.\<close>

fun spin :: "bool \<Rightarrow> bool list \<Rightarrow> bool list option" where
  "spin want [] = None"
| "spin want (x # xs) = (if x = want then Some xs else spin want xs)"

text \<open>\<open>while(!(SPSR & (1<<SPIF))) {}\<close>: the byte in SPDR at the exit, and what is left.\<close>

fun spin_spif :: "uint8 option list \<Rightarrow> (uint8 \<times> uint8 option list) option" where
  "spin_spif [] = None"
| "spin_spif (None # xs) = spin_spif xs"
| "spin_spif (Some b # xs) = Some (b, xs)"

definition pollBodyAck :: "bool \<Rightarrow> proc" where
  "pollBodyAck want s =
     (case spin want (body_ack_in s) of
        None \<Rightarrow> Inl Hang
      | Some rest \<Rightarrow> Inr (emit (Saw BODY_ACK want) (s\<lparr>body_ack_in := rest\<rparr>)))"

definition pollSleep :: "bool \<Rightarrow> proc" where
  "pollSleep want s =
     (case spin want (sleep_in s) of
        None \<Rightarrow> Inl Hang
      | Some rest \<Rightarrow> Inr (emit (Saw SLEEP want) (s\<lparr>sleep_in := rest\<rparr>)))"

definition pollSPIF :: proc where
  "pollSPIF s =
     (case spin_spif (spi_in s) of
        None \<Rightarrow> Inl Hang
      | Some (b, rest) \<Rightarrow> Inr (emit Saw_SPIF (s\<lparr>spi_in := rest, rx_buf := b\<rparr>)))"

definition pinMode :: "pin \<Rightarrow> direction \<Rightarrow> proc" where
  "pinMode p d = act (Pin_mode p d)"

definition digitalWrite :: "pin \<Rightarrow> bool \<Rightarrow> proc" where
  "digitalWrite p v = act (Pin_write p v)"

definition delayMicroseconds :: "nat \<Rightarrow> proc" where
  "delayMicroseconds n = act (Delay_us n)"

definition delay :: "nat \<Rightarrow> proc" where
  "delay n = act (Delay_ms n)"

definition set_SPCR :: "spcr_bit list \<Rightarrow> proc" where
  "set_SPCR bits = act (SPCR_write bits)"

definition set_SPDR :: "uint8 \<Rightarrow> proc" where
  "set_SPDR v = act (SPDR_write v)"

subsection \<open>setup and the four waits\<close>

text \<open>The source's \<open>setup\<close> (the name is taken in Isabelle).\<close>

definition setup_pins :: proc where
  "setup_pins = run
     [act (Serial_begin 115200),
      pinMode SLEEP INPUT,
      pinMode BODY_ACK INPUT,
      pinMode LENS_ACK OUTPUT,
      pinMode FOCUS INPUT,
      pinMode SHUTTER INPUT,
      set_SPCR [SPE, DORD, CPOL, CPHA],
      pinMode CLK INPUT,
      pinMode DATA_MISO INPUT,
      pinMode DATA_MOSI INPUT]"

definition waitBodyFall :: proc where
  "waitBodyFall = run [pollBodyAck True, pollBodyAck False]"

definition waitBodyRise :: proc where
  "waitBodyRise = run [pollBodyAck False, pollBodyAck True]"

definition waitBodyLow :: proc where
  "waitBodyLow = run [delayMicroseconds 2, pollBodyAck False]"

definition waitBodyHigh :: proc where
  "waitBodyHigh = run [delayMicroseconds 2, pollBodyAck True]"

subsection \<open>One byte\<close>

definition readByte :: "hw \<Rightarrow> fault + (uint8 \<times> hw)" where
  "readByte s =
     (case run [pinMode DATA_MISO INPUT, set_SPDR 0x00, pollSPIF] s of
        Inl e \<Rightarrow> Inl e
      | Inr s' \<Rightarrow> Inr (rx_buf s', emit (SPDR_read (rx_buf s')) s'))"

definition writeByte :: "uint8 \<Rightarrow> proc" where
  "writeByte v = run [set_SPDR v, pinMode DATA_MISO OUTPUT, pollSPIF, set_SPDR 0xFF]"

subsection \<open>Frames\<close>

text \<open>
  The loop of readBytesChecksum, entered at \<open>i\<close> with the running \<open>checksum\<close>. In
  \<open>i < nBytes - 1\<close> both operands are promoted to int before the subtraction and the
  comparison.
\<close>

function readLoop :: "uint8 \<Rightarrow> uint8 \<Rightarrow> uint8 \<Rightarrow> hw \<Rightarrow> fault + (uint8 \<times> hw)" where
  "readLoop i nBytes checksum s =
     (if uint i < uint nBytes - 1 then
        (case readByte s of
           Inl e \<Rightarrow> Inl e
         | Inr (b, s1) \<Rightarrow>
             (case run [digitalWrite LENS_ACK False, digitalWrite LENS_ACK True] s1 of
                Inl e \<Rightarrow> Inl e
              | Inr s2 \<Rightarrow> readLoop (i + 1) nBytes (checksum + b) s2))
      else Inr (checksum, s))"
  by pat_completeness auto
termination
proof (relation "measure (\<lambda>(i, nBytes, checksum, s). nat (uint nBytes - uint i))")
  show "wf (measure (\<lambda>(i, nBytes, checksum, s). nat (uint nBytes - uint i)))"
    by simp
next
  fix i nBytes :: uint8 and checksum :: uint8 and s :: hw and x y xa ya
  assume lt: "uint i < uint nBytes - 1"
  have "uint nBytes < 256" using uint_bounded [of nBytes] by simp
  with lt have "uint i + 1 < 256" by simp
  then have "uint (i + 1) = uint i + 1" by (simp add: uint_word_ariths)
  with lt show "((i + 1, nBytes, checksum + xa, ya), (i, nBytes, checksum, s))
        \<in> measure (\<lambda>(i, nBytes, checksum, s). nat (uint nBytes - uint i))"
    by simp
qed

definition readBytesChecksum :: "uint8 \<Rightarrow> proc" where
  "readBytesChecksum nBytes s =
     (case readLoop 0 nBytes 0 s of
        Inl e \<Rightarrow> Inl e
      | Inr (checksum, s1) \<Rightarrow>
          (case readByte s1 of
             Inl e \<Rightarrow> Inl e
           | Inr (b, s2) \<Rightarrow>
               (case run [digitalWrite LENS_ACK False,
                          waitBodyFall,
                          digitalWrite LENS_ACK True,
                          waitBodyHigh] s2 of
                  Inl e \<Rightarrow> Inl e
                | Inr s3 \<Rightarrow> writeByte (checksum + b) s3)))"

text \<open>The loop of writeBytesChecksum; \<open>values[i]\<close> is read when writeByte is called.\<close>

function writeLoop :: "uint8 \<Rightarrow> uint8 \<Rightarrow> uint8 list \<Rightarrow> uint8 \<Rightarrow> hw \<Rightarrow> fault + (uint8 \<times> hw)" where
  "writeLoop i nBytes vals checksum s =
     (if uint i < uint nBytes then
        (case run [waitBodyLow, digitalWrite LENS_ACK False, digitalWrite LENS_ACK True] s of
           Inl e \<Rightarrow> Inl e
         | Inr s1 \<Rightarrow>
             if unat i < length vals then
               (case writeByte (vals ! unat i) s1 of
                  Inl e \<Rightarrow> Inl e
                | Inr s2 \<Rightarrow> writeLoop (i + 1) nBytes vals (checksum + vals ! unat i) s2)
             else Inl OutOfBounds)
      else Inr (checksum, s))"
  by pat_completeness auto
termination
proof (relation "measure (\<lambda>(i, nBytes, vals, checksum, s). nat (uint nBytes - uint i))")
  show "wf (measure (\<lambda>(i, nBytes, vals, checksum, s). nat (uint nBytes - uint i)))"
    by simp
next
  fix i nBytes :: uint8 and vals :: "uint8 list" and checksum :: uint8 and s x2 x2a :: hw
  assume lt: "uint i < uint nBytes"
  have "uint nBytes < 256" using uint_bounded [of nBytes] by simp
  with lt have "uint i + 1 < 256" by simp
  then have "uint (i + 1) = uint i + 1" by (simp add: uint_word_ariths)
  with lt show "((i + 1, nBytes, vals, checksum + vals ! unat i, x2a), (i, nBytes, vals, checksum, s))
        \<in> measure (\<lambda>(i, nBytes, vals, checksum, s). nat (uint nBytes - uint i))"
    by simp
qed

definition writeBytesChecksum :: "uint8 \<Rightarrow> uint8 list \<Rightarrow> proc" where
  "writeBytesChecksum nBytes vals s =
     (case run [waitBodyFall,
                digitalWrite LENS_ACK False,
                digitalWrite LENS_ACK True,
                writeByte nBytes] s of
        Inl e \<Rightarrow> Inl e
      | Inr s1 \<Rightarrow>
          (case writeLoop 0 nBytes vals 0 s1 of
             Inl e \<Rightarrow> Inl e
           | Inr (checksum, s2) \<Rightarrow>
               run [waitBodyLow,
                    digitalWrite LENS_ACK False,
                    digitalWrite LENS_ACK True,
                    writeByte checksum] s2))"

subsection \<open>standbyPacket\<close>

text \<open>The 23 initialisers of \<open>values[31]\<close> are zero and so are the 8 elements left out.\<close>

definition standbyPacket :: proc where
  "standbyPacket = run [readBytesChecksum 4, writeBytesChecksum 31 (replicate 31 0x00)]"

subsection \<open>main\<close>

text \<open>
  The statements of main before its final loop are a fixed sequence of calls. They are
  kept as data, one constructor per kind of statement, and \<open>exec\<close> gives each its
  meaning, so that the sequence itself can be inspected.
\<close>

datatype call =
    Init
  | Setup
  | AwaitSleep
  | WaitBodyFall
  | WaitBodyRise
  | WaitBodyLow
  | WaitBodyHigh
  | DigitalWrite pin bool
  | Delay nat
  | Assign_SPCR "spcr_bit list"
  | WriteByte uint8
  | ReadBytesChecksum uint8
  | WriteBytesChecksum uint8 "uint8 list"

fun exec :: "call \<Rightarrow> proc" where
  "exec Init = act Arduino_init"
| "exec Setup = setup_pins"
| "exec AwaitSleep = pollSleep True"
| "exec WaitBodyFall = waitBodyFall"
| "exec WaitBodyRise = waitBodyRise"
| "exec WaitBodyLow = waitBodyLow"
| "exec WaitBodyHigh = waitBodyHigh"
| "exec (DigitalWrite p v) = digitalWrite p v"
| "exec (Delay n) = delay n"
| "exec (Assign_SPCR bits) = set_SPCR bits"
| "exec (WriteByte v) = writeByte v"
| "exec (ReadBytesChecksum n) = readBytesChecksum n"
| "exec (WriteBytesChecksum n vals) = writeBytesChecksum n vals"

definition sendBytes :: "uint8 list" where
  "sendBytes = [0x00, 0x0a, 0x10, 0xc4, 0x09]"

definition sendBytes2 :: "uint8 list" where
  "sendBytes2 = [0x00, 0x00, 0x00, 0x01, 0x10, 0x00, 0x00, 0x41,
                 0x41, 0x41, 0x32, 0x34, 0x33, 0x38, 0x34, 0x31,
                 0x00, 0x00, 0x00, 0x01, 0x11]"

definition main_calls :: "call list" where
  "main_calls =
     [Init,
      Setup,
      AwaitSleep,
      WaitBodyHigh,
      DigitalWrite LENS_ACK True,
      Delay 10,
      DigitalWrite LENS_ACK False,
      WaitBodyRise,
      DigitalWrite LENS_ACK True,
      ReadBytesChecksum 4,
      WaitBodyFall,
      DigitalWrite LENS_ACK False,
      WaitBodyRise,
      DigitalWrite LENS_ACK True,
      Delay 500,
      DigitalWrite LENS_ACK False,
      WaitBodyLow,
      DigitalWrite LENS_ACK True,
      WaitBodyRise,
      WriteByte 0x00,
      WaitBodyLow,
      DigitalWrite LENS_ACK False,
      WaitBodyRise,
      DigitalWrite LENS_ACK True,
      ReadBytesChecksum 4,
      WriteBytesChecksum 5 sendBytes,
      WaitBodyLow,
      DigitalWrite LENS_ACK False,
      WaitBodyHigh,
      DigitalWrite LENS_ACK True,
      ReadBytesChecksum 4,
      WaitBodyLow,
      DigitalWrite LENS_ACK False,
      WaitBodyHigh,
      DigitalWrite LENS_ACK True,
      Assign_SPCR [],
      Assign_SPCR [SPE, DORD, CPOL, CPHA],
      ReadBytesChecksum 4,
      WriteBytesChecksum 21 sendBytes2,
      WaitBodyLow,
      DigitalWrite LENS_ACK False,
      WaitBodyHigh,
      DigitalWrite LENS_ACK True,
      ReadBytesChecksum 4,
      WriteBytesChecksum 2 sendBytes2,
      WaitBodyLow,
      DigitalWrite LENS_ACK False,
      WaitBodyHigh,
      DigitalWrite LENS_ACK True,
      ReadBytesChecksum 4,
      WaitBodyLow,
      DigitalWrite LENS_ACK False,
      Delay 10,
      DigitalWrite LENS_ACK True]"

definition main_script :: proc where
  "main_script = run (map exec main_calls)"

text \<open>The body of \<open>while(1)\<close>: its one statement is commented out.\<close>

definition standbyBody :: "hw \<Rightarrow> hw" where
  "standbyBody s = s"

text \<open>
  What main has come to after a number of turns of its final loop: it is still in the
  loop, or it has left it and returned.
\<close>

datatype progress = Still_looping hw | Returned int hw

fun standby :: "nat \<Rightarrow> hw \<Rightarrow> progress" where
  "standby 0 s = Still_looping s"
| "standby (Suc k) s = (if (1::int) \<noteq> 0 then standby k (standbyBody s) else Returned 0 s)"

definition main :: "nat \<Rightarrow> hw \<Rightarrow> fault + progress" where
  "main turns s =
     (case main_script s of
        Inl e \<Rightarrow> Inl e
      | Inr s' \<Rightarrow> Inr (standby turns s'))"

subsection \<open>Vocabulary of the statements\<close>

text \<open>The bytes that the body clocks in, in order of arrival: the set readings of SPIF.\<close>

fun arrived :: "uint8 option list \<Rightarrow> uint8 list" where
  "arrived [] = []"
| "arrived (None # xs) = arrived xs"
| "arrived (Some b # xs) = b # arrived xs"

text \<open>A machine that has done nothing yet, with the given future of its two main inputs.\<close>

definition env :: "bool list \<Rightarrow> uint8 option list \<Rightarrow> hw" where
  "env acks spi = \<lparr>sleep_in = [True], body_ack_in = acks, spi_in = spi, rx_buf = 0, trace = []\<rparr>"

text \<open>What one call of writeByte leaves in the trace.\<close>

definition writeByte_trace :: "uint8 \<Rightarrow> event list" where
  "writeByte_trace v = [SPDR_write v, Pin_mode DATA_MISO OUTPUT, Saw_SPIF, SPDR_write 0xFF]"

text \<open>The exits of waitBodyLow and of waitBodyFall.\<close>

definition saw_low :: "event list" where
  "saw_low = [Delay_us 2, Saw BODY_ACK False]"

definition saw_fall :: "event list" where
  "saw_fall = [Saw BODY_ACK True, Saw BODY_ACK False]"

text \<open>
  One handshake cycle and the byte it lets through: the wait \<open>w\<close> on the body's line,
  the ready line low then high, the byte.
\<close>

definition handshake_write :: "event list \<Rightarrow> uint8 \<Rightarrow> event list" where
  "handshake_write w b = w @ [Pin_write LENS_ACK False, Pin_write LENS_ACK True] @ writeByte_trace b"

text \<open>What one call of readByte that returns \<open>b\<close> leaves in the trace.\<close>

definition readByte_trace :: "uint8 \<Rightarrow> event list" where
  "readByte_trace b = [Pin_mode DATA_MISO INPUT, SPDR_write 0x00, Saw_SPIF, SPDR_read b]"

text \<open>The exit of waitBodyHigh.\<close>

definition saw_high :: "event list" where
  "saw_high = [Delay_us 2, Saw BODY_ACK True]"

text \<open>A byte read in the loop of readBytesChecksum: the ready line goes low, then high.\<close>

definition read_ready :: "uint8 \<Rightarrow> event list" where
  "read_ready b = readByte_trace b @ [Pin_write LENS_ACK False, Pin_write LENS_ACK True]"

text \<open>
  The last byte \<open>b\<close> read and the reply \<open>c\<close>: the ready line goes low and stays low until
  the body's line has fallen.
\<close>

definition read_reply :: "uint8 \<Rightarrow> uint8 \<Rightarrow> event list" where
  "read_reply b c = readByte_trace b @ [Pin_write LENS_ACK False] @ saw_fall
      @ [Pin_write LENS_ACK True] @ saw_high @ writeByte_trace c"

text \<open>The frames that a call of the script reads and writes.\<close>

fun read_length :: "call \<Rightarrow> uint8 option" where
  "read_length (ReadBytesChecksum n) = Some n"
| "read_length _ = None"

fun write_frame :: "call \<Rightarrow> (uint8 \<times> uint8 list) option" where
  "write_frame (WriteBytesChecksum n vals) = Some (n, vals)"
| "write_frame _ = None"

text \<open>
  What the inputs still have to offer: \<open>sl\<close> and \<open>ws\<close> are levels that the sleep pin and
  the body's line will show in this order, perhaps with others in between, and \<open>m\<close>
  transfers will complete.
\<close>

definition enough :: "bool list \<Rightarrow> bool list \<Rightarrow> nat \<Rightarrow> hw \<Rightarrow> bool" where
  "enough sl ws m s \<longleftrightarrow>
     subseq sl (sleep_in s) \<and> subseq ws (body_ack_in s) \<and> m \<le> length (arrived (spi_in s))"

text \<open>\<open>f\<close> returns on every machine that offers this much, and leaves the rest.\<close>

definition needs :: "proc \<Rightarrow> bool list \<Rightarrow> bool list \<Rightarrow> nat \<Rightarrow> bool" where
  "needs f sl ws m \<longleftrightarrow>
     (\<forall>sl' ws' m' s. enough (sl @ sl') (ws @ ws') (m + m') s
        \<longrightarrow> (\<exists>s'. f s = Inr s' \<and> enough sl' ws' m' s'))"

text \<open>What each call of the script waits for, read off the waits it makes.\<close>

fun sleep_need :: "call \<Rightarrow> bool list" where
  "sleep_need AwaitSleep = [True]"
| "sleep_need _ = []"

fun ack_need :: "call \<Rightarrow> bool list" where
  "ack_need WaitBodyFall = [True, False]"
| "ack_need WaitBodyRise = [False, True]"
| "ack_need WaitBodyLow = [False]"
| "ack_need WaitBodyHigh = [True]"
| "ack_need (ReadBytesChecksum n) = [True, False, True]"
| "ack_need (WriteBytesChecksum n vals) = True # replicate (unat n + 2) False"
| "ack_need _ = []"

fun spi_need :: "call \<Rightarrow> nat" where
  "spi_need (WriteByte v) = 1"
| "spi_need (ReadBytesChecksum n) = unat n - 1 + 2"
| "spi_need (WriteBytesChecksum n vals) = unat n + 2"
| "spi_need _ = 0"

fun in_bounds :: "call \<Rightarrow> bool" where
  "in_bounds (WriteBytesChecksum n vals) = (unat n \<le> length vals)"
| "in_bounds _ = True"

text \<open>
  Two machines that differ in nothing but bytes: an event without the byte it carries,
  the readings of SPIF without the bytes that came with them.
\<close>

fun blank :: "event \<Rightarrow> event" where
  "blank (SPDR_write v) = SPDR_write 0"
| "blank (SPDR_read v) = SPDR_read 0"
| "blank e = e"

definition spif_flags :: "uint8 option list \<Rightarrow> bool list" where
  "spif_flags xs = map (\<lambda>x. x \<noteq> None) xs"

definition sim :: "hw \<Rightarrow> hw \<Rightarrow> bool" where
  "sim s t \<longleftrightarrow>
     sleep_in s = sleep_in t \<and> body_ack_in s = body_ack_in t
     \<and> spif_flags (spi_in s) = spif_flags (spi_in t)
     \<and> map blank (trace s) = map blank (trace t)"

definition sim_val :: "uint8 \<times> hw \<Rightarrow> uint8 \<times> hw \<Rightarrow> bool" where
  "sim_val p q \<longleftrightarrow> sim (snd p) (snd q)"

text \<open>From machines that differ only in bytes, \<open>f\<close> and \<open>g\<close> fail alike or return such machines.\<close>

definition indep :: "proc \<Rightarrow> proc \<Rightarrow> bool" where
  "indep f g \<longleftrightarrow> (\<forall>s t. sim s t \<longrightarrow> rel_sum (=) sim (f s) (g t))"

text \<open>
  What a call of the script adds to the trace when it returns, given the bytes \<open>bs\<close> that
  arrive from its start on, and the same for a sequence of calls. A received byte shows
  only where it is read, and in the reply of readBytesChecksum, which is the plain sum.
\<close>

fun call_trace :: "call \<Rightarrow> uint8 list \<Rightarrow> event list" where
  "call_trace Init bs = [Arduino_init]"
| "call_trace Setup bs =
     [Serial_begin 115200, Pin_mode SLEEP INPUT, Pin_mode BODY_ACK INPUT,
      Pin_mode LENS_ACK OUTPUT, Pin_mode FOCUS INPUT, Pin_mode SHUTTER INPUT,
      SPCR_write [SPE, DORD, CPOL, CPHA], Pin_mode CLK INPUT, Pin_mode DATA_MISO INPUT,
      Pin_mode DATA_MOSI INPUT]"
| "call_trace AwaitSleep bs = [Saw SLEEP True]"
| "call_trace WaitBodyFall bs = saw_fall"
| "call_trace WaitBodyRise bs = [Saw BODY_ACK False, Saw BODY_ACK True]"
| "call_trace WaitBodyLow bs = saw_low"
| "call_trace WaitBodyHigh bs = saw_high"
| "call_trace (DigitalWrite p v) bs = [Pin_write p v]"
| "call_trace (Delay n) bs = [Delay_ms n]"
| "call_trace (Assign_SPCR bits) bs = [SPCR_write bits]"
| "call_trace (WriteByte v) bs = writeByte_trace v"
| "call_trace (ReadBytesChecksum n) bs =
     concat (map read_ready (take (unat n - 1) bs))
       @ read_reply (bs ! (unat n - 1)) (sum_list (take (unat n - 1 + 1) bs))"
| "call_trace (WriteBytesChecksum n vals) bs =
     handshake_write saw_fall n
       @ concat (map (handshake_write saw_low) (take (unat n) vals @ [sum_list (take (unat n) vals)]))"

fun script_trace :: "call list \<Rightarrow> uint8 list \<Rightarrow> event list" where
  "script_trace [] bs = []"
| "script_trace (c # cs) bs = call_trace c bs @ script_trace cs (drop (spi_need c) bs)"

section \<open>Auxiliary facts\<close>

lemma spin_subseq:
  "subseq (w # ws) xs \<Longrightarrow> \<exists>rest. spin w xs = Some rest \<and> subseq ws rest"
  by (induction xs) (auto split: if_splits)

lemma spin_spif_arrived:
  "spin_spif xs = Some (b, rest) \<Longrightarrow> arrived xs = b # arrived rest"
  by (induction xs rule: spin_spif.induct) auto

lemma spin_spif_None_iff: "spin_spif xs = None \<longleftrightarrow> arrived xs = []"
  by (induction xs rule: spin_spif.induct) auto

lemma writeByte_eq:
  "writeByte v s =
     (case spin_spif (spi_in s) of
        None \<Rightarrow> Inl Hang
      | Some (b, rest) \<Rightarrow>
          Inr (s\<lparr>spi_in := rest, rx_buf := b,
                 trace := trace s @ [SPDR_write v, Pin_mode DATA_MISO OUTPUT, Saw_SPIF, SPDR_write 0xFF]\<rparr>))"
  by (simp add: writeByte_def set_SPDR_def pinMode_def pollSPIF_def act_def emit_def
      split: option.splits)

lemma readByte_eq:
  "readByte s =
     (case spin_spif (spi_in s) of
        None \<Rightarrow> Inl Hang
      | Some (b, rest) \<Rightarrow>
          Inr (b, s\<lparr>spi_in := rest, rx_buf := b,
                 trace := trace s @ [Pin_mode DATA_MISO INPUT, SPDR_write 0x00, Saw_SPIF, SPDR_read b]\<rparr>))"
  by (simp add: readByte_def set_SPDR_def pinMode_def pollSPIF_def act_def emit_def
      split: option.splits)

lemma waitBodyLow_eq:
  "waitBodyLow s =
     (case spin False (body_ack_in s) of
        None \<Rightarrow> Inl Hang
      | Some rest \<Rightarrow>
          Inr (s\<lparr>body_ack_in := rest, trace := trace s @ [Delay_us 2, Saw BODY_ACK False]\<rparr>))"
  by (simp add: waitBodyLow_def delayMicroseconds_def pollBodyAck_def act_def emit_def
      split: option.splits)

lemma waitBodyHigh_eq:
  "waitBodyHigh s =
     (case spin True (body_ack_in s) of
        None \<Rightarrow> Inl Hang
      | Some rest \<Rightarrow>
          Inr (s\<lparr>body_ack_in := rest, trace := trace s @ [Delay_us 2, Saw BODY_ACK True]\<rparr>))"
  by (simp add: waitBodyHigh_def delayMicroseconds_def pollBodyAck_def act_def emit_def
      split: option.splits)

lemma waitBodyFall_eq:
  "waitBodyFall s =
     (case spin True (body_ack_in s) of
        None \<Rightarrow> Inl Hang
      | Some r1 \<Rightarrow>
         (case spin False r1 of
            None \<Rightarrow> Inl Hang
          | Some rest \<Rightarrow>
              Inr (s\<lparr>body_ack_in := rest, trace := trace s @ [Saw BODY_ACK True, Saw BODY_ACK False]\<rparr>)))"
  by (simp add: waitBodyFall_def pollBodyAck_def emit_def split: option.splits)

lemma waitBodyRise_eq:
  "waitBodyRise s =
     (case spin False (body_ack_in s) of
        None \<Rightarrow> Inl Hang
      | Some r1 \<Rightarrow>
         (case spin True r1 of
            None \<Rightarrow> Inl Hang
          | Some rest \<Rightarrow>
              Inr (s\<lparr>body_ack_in := rest, trace := trace s @ [Saw BODY_ACK False, Saw BODY_ACK True]\<rparr>)))"
  by (simp add: waitBodyRise_def pollBodyAck_def emit_def split: option.splits)

lemma digitalWrite_eq: "digitalWrite p v s = Inr (s\<lparr>trace := trace s @ [Pin_write p v]\<rparr>)"
  by (simp add: digitalWrite_def act_def emit_def)

declare readLoop.simps [simp del] writeLoop.simps [simp del]

lemma uint8_less_unat: "uint (i::uint8) < uint (n::uint8) \<longleftrightarrow> unat i < unat n"
  by (simp add: word_less_nat_alt [symmetric] word_less_def)

lemma uint8_succ: "uint (i::uint8) < uint (n::uint8) \<Longrightarrow> unat (i + 1) = Suc (unat i)"
proof -
  assume lt: "uint i < uint n"
  then have "unat i < unat n" by (simp add: uint8_less_unat)
  moreover have "unat n < 256" using unsigned_less [of n, where ?'a = nat] by simp
  ultimately have "unat i + 1 < 256" by simp
  then show ?thesis by (simp add: unat_word_ariths)
qed

lemma slice_step:
  "unat i < unat n \<Longrightarrow> unat i < length vs \<Longrightarrow>
   drop (unat i) (take (unat n) vs) = vs ! unat i # drop (Suc (unat i)) (take (unat n) vs)"
  using Cons_nth_drop_Suc [of "unat i" "take (unat n) vs"] by simp

lemma write_cycle_eq:
  "(case run [waitBodyLow, digitalWrite LENS_ACK False, digitalWrite LENS_ACK True] s of
      Inl e \<Rightarrow> Inl e | Inr s1 \<Rightarrow> writeByte v s1) =
   (case spin False (body_ack_in s) of
      None \<Rightarrow> Inl Hang
    | Some rest \<Rightarrow>
       (case spin_spif (spi_in s) of
          None \<Rightarrow> Inl Hang
        | Some (b, rest') \<Rightarrow>
           Inr (s\<lparr>body_ack_in := rest, spi_in := rest', rx_buf := b,
                  trace := trace s @ handshake_write saw_low v\<rparr>)))"
  by (simp add: waitBodyLow_eq digitalWrite_eq writeByte_eq handshake_write_def saw_low_def
       writeByte_trace_def split: option.splits)

lemma writeLoop_Inr:
  "writeLoop i n vs c s = Inr (c', s') \<Longrightarrow>
     trace s' = trace s @ concat (map (handshake_write saw_low) (drop (unat i) (take (unat n) vs)))
     \<and> c' = c + sum_list (drop (unat i) (take (unat n) vs))"
proof (induction i n vs c s rule: writeLoop.induct)
  case (1 i n vs c s)
  show ?case
  proof (cases "uint i < uint n")
    case False
    then have "unat n \<le> unat i" by (simp add: uint8_less_unat)
    with False "1.prems" show ?thesis by (simp add: writeLoop.simps)
  next
    case True
    from True "1.prems" obtain s1 where
      s1: "run [waitBodyLow, digitalWrite LENS_ACK False, digitalWrite LENS_ACK True] s = Inr s1"
      by (subst (asm) writeLoop.simps) (auto split: sum.splits)
    from True "1.prems" s1 have inb: "unat i < length vs"
      by (subst (asm) writeLoop.simps) (auto split: sum.splits if_splits)
    from True "1.prems" s1 inb obtain s2 where
      s2: "writeByte (vs ! unat i) s1 = Inr s2"
      and rec: "writeLoop (i + 1) n vs (c + vs ! unat i) s2 = Inr (c', s')"
      by (subst (asm) writeLoop.simps) (auto split: sum.splits)
    have tr: "trace s2 = trace s @ handshake_write saw_low (vs ! unat i)"
      using s1 s2 write_cycle_eq [where s = s and v = "vs ! unat i"]
      by (auto split: option.splits)
    have sl: "drop (unat i) (take (unat n) vs) = vs ! unat i # drop (Suc (unat i)) (take (unat n) vs)"
      using True inb by (intro slice_step) (simp_all add: uint8_less_unat)
    from "1.IH" [OF True s1 inb s2 rec] show ?thesis
      by (simp add: sl tr uint8_succ [OF True] add.assoc)
  qed
qed

lemma spin_spif_more:
  "Suc m \<le> length (arrived xs) \<Longrightarrow>
   \<exists>b rest. spin_spif xs = Some (b, rest) \<and> m \<le> length (arrived rest)"
  by (induction xs rule: spin_spif.induct) auto

lemma writeLoop_total:
  "subseq (replicate (unat n - unat i) False @ ws) (body_ack_in s) \<Longrightarrow>
   unat n - unat i + m \<le> length (arrived (spi_in s)) \<Longrightarrow>
   unat n \<le> length vs \<Longrightarrow>
   \<exists>c' s'. writeLoop i n vs c s = Inr (c', s') \<and> subseq ws (body_ack_in s')
      \<and> m \<le> length (arrived (spi_in s'))"
proof (induction i n vs c s rule: writeLoop.induct)
  case (1 i n vs c s)
  show ?case
  proof (cases "uint i < uint n")
    case False
    then have "unat n \<le> unat i" by (simp add: uint8_less_unat)
    with False "1.prems" show ?thesis by (simp add: writeLoop.simps)
  next
    case True
    then have lt: "unat i < unat n" by (simp add: uint8_less_unat)
    then have k: "unat n - unat i = Suc (unat n - Suc (unat i))" by simp
    from "1.prems"(1) obtain rest where
      r: "spin False (body_ack_in s) = Some rest"
      and r': "subseq (replicate (unat n - Suc (unat i)) False @ ws) rest"
      using spin_subseq [of False "replicate (unat n - Suc (unat i)) False @ ws" "body_ack_in s"]
      by (auto simp: k)
    from "1.prems"(2) obtain b rest' where
      p: "spin_spif (spi_in s) = Some (b, rest')"
      and p': "unat n - Suc (unat i) + m \<le> length (arrived rest')"
      using spin_spif_more [of "unat n - Suc (unat i) + m" "spi_in s"]
      by (auto simp: k)
    from r obtain s1 where
      s1: "run [waitBodyLow, digitalWrite LENS_ACK False, digitalWrite LENS_ACK True] s = Inr s1"
      by (simp add: waitBodyLow_eq digitalWrite_eq)
    from lt "1.prems"(3) have inb: "unat i < length vs" by simp
    define s2 where "s2 = s\<lparr>body_ack_in := rest, spi_in := rest', rx_buf := b,
                  trace := trace s @ handshake_write saw_low (vs ! unat i)\<rparr>"
    have s2: "writeByte (vs ! unat i) s1 = Inr s2"
      using write_cycle_eq [where s = s and v = "vs ! unat i"] s1 r p by (simp add: s2_def)
    have "\<exists>c' s'. writeLoop (i + 1) n vs (c + vs ! unat i) s2 = Inr (c', s')
        \<and> subseq ws (body_ack_in s') \<and> m \<le> length (arrived (spi_in s'))"
      using r' p' "1.prems"(3)
      by (intro "1.IH" [OF True s1 inb s2]) (simp_all add: s2_def uint8_succ [OF True])
    then show ?thesis
      using True s1 inb s2 by (subst writeLoop.simps) simp
  qed
qed

lemma sum_list_uint8: "sum_list (P :: uint8 list) = word_of_nat (sum_list (map unat P) mod 256)"
proof -
  have "sum_list P = word_of_nat (sum_list (map unat P))"
    by (induction P) simp_all
  also have "\<dots> = word_of_nat (sum_list (map unat P) mod 256)"
    by (simp add: word_of_nat_eq_iff take_bit_eq_mod)
  finally show ?thesis .
qed

lemma header_eq:
  "run [waitBodyFall, digitalWrite LENS_ACK False, digitalWrite LENS_ACK True, writeByte v] s =
   (case spin True (body_ack_in s) of
      None \<Rightarrow> Inl Hang
    | Some r1 \<Rightarrow>
       (case spin False r1 of
          None \<Rightarrow> Inl Hang
        | Some rest \<Rightarrow>
           (case spin_spif (spi_in s) of
              None \<Rightarrow> Inl Hang
            | Some (b, rest') \<Rightarrow>
               Inr (s\<lparr>body_ack_in := rest, spi_in := rest', rx_buf := b,
                      trace := trace s @ handshake_write saw_fall v\<rparr>))))"
  by (simp add: waitBodyFall_eq digitalWrite_eq writeByte_eq handshake_write_def saw_fall_def
       writeByte_trace_def split: option.splits)

lemma trailer_eq:
  "run [waitBodyLow, digitalWrite LENS_ACK False, digitalWrite LENS_ACK True, writeByte v] s =
   (case spin False (body_ack_in s) of
      None \<Rightarrow> Inl Hang
    | Some rest \<Rightarrow>
       (case spin_spif (spi_in s) of
          None \<Rightarrow> Inl Hang
        | Some (b, rest') \<Rightarrow>
           Inr (s\<lparr>body_ack_in := rest, spi_in := rest', rx_buf := b,
                  trace := trace s @ handshake_write saw_low v\<rparr>)))"
  by (simp add: waitBodyLow_eq digitalWrite_eq writeByte_eq handshake_write_def saw_low_def
       writeByte_trace_def split: option.splits)

lemma writeBytesChecksum_Inr:
  assumes len: "length P = unat n" and ret: "writeBytesChecksum n P s = Inr s'"
  shows "trace s' = trace s @ handshake_write saw_fall n
           @ concat (map (handshake_write saw_low) (P @ [sum_list P]))"
proof -
  from ret obtain s1 c s2 where
    s1: "run [waitBodyFall, digitalWrite LENS_ACK False, digitalWrite LENS_ACK True, writeByte n] s = Inr s1"
    and lp: "writeLoop 0 n P 0 s1 = Inr (c, s2)"
    and fin: "run [waitBodyLow, digitalWrite LENS_ACK False, digitalWrite LENS_ACK True, writeByte c] s2 = Inr s'"
    unfolding writeBytesChecksum_def by (auto split: sum.splits)
  have t1: "trace s1 = trace s @ handshake_write saw_fall n"
    using s1 unfolding header_eq by (auto split: option.splits)
  from writeLoop_Inr [OF lp] len have
    t2: "trace s2 = trace s1 @ concat (map (handshake_write saw_low) P)" and c: "c = sum_list P"
    by simp_all
  have t3: "trace s' = trace s2 @ handshake_write saw_low c"
    using fin unfolding trailer_eq by (auto split: option.splits)
  show ?thesis by (simp add: t1 t2 t3 c)
qed

lemma uint8_less_pred: "uint (i::uint8) < uint (n::uint8) - 1 \<longleftrightarrow> Suc (unat i) < unat n"
proof -
  have i: "uint i = int (unat i)" and n: "uint n = int (unat n)"
    by (rule uint_nat)+
  show ?thesis unfolding i n by arith
qed

lemma read_cycle_eq:
  "(case readByte s of Inl e \<Rightarrow> Inl e
    | Inr (b, s1) \<Rightarrow> run [digitalWrite LENS_ACK False, digitalWrite LENS_ACK True] s1) =
   (case spin_spif (spi_in s) of
      None \<Rightarrow> Inl Hang
    | Some (b, rest) \<Rightarrow>
        Inr (s\<lparr>spi_in := rest, rx_buf := b, trace := trace s @ read_ready b\<rparr>))"
  by (simp add: readByte_eq digitalWrite_eq read_ready_def readByte_trace_def split: option.splits)

lemma readLoop_Inr:
  "readLoop i n c s = Inr (c', s') \<Longrightarrow>
     \<exists>bs. length bs = unat n - 1 - unat i
        \<and> arrived (spi_in s) = bs @ arrived (spi_in s')
        \<and> trace s' = trace s @ concat (map read_ready bs)
        \<and> c' = c + sum_list bs
        \<and> body_ack_in s' = body_ack_in s"
proof (induction i n c s rule: readLoop.induct)
  case (1 i n c s)
  show ?case
  proof (cases "uint i < uint n - 1")
    case False
    then have "unat n - 1 - unat i = 0" by (simp add: uint8_less_pred)
    with False "1.prems" show ?thesis by (simp add: readLoop.simps)
  next
    case True
    then have lt: "Suc (unat i) < unat n" by (simp add: uint8_less_pred)
    from True have lt': "uint i < uint n" by simp
    from True "1.prems" obtain b s1 s2 where
      s1: "readByte s = Inr (b, s1)"
      and s2: "run [digitalWrite LENS_ACK False, digitalWrite LENS_ACK True] s1 = Inr s2"
      and rec: "readLoop (i + 1) n (c + b) s2 = Inr (c', s')"
      by (subst (asm) readLoop.simps) (auto split: sum.splits)
    from s1 obtain rest where
      p: "spin_spif (spi_in s) = Some (b, rest)"
      by (auto simp: readByte_eq split: option.splits)
    have s2_eq: "s2 = s\<lparr>spi_in := rest, rx_buf := b, trace := trace s @ read_ready b\<rparr>"
      using read_cycle_eq [of s] s1 s2 p by simp
    from "1.IH" [OF True s1 refl s2 rec] obtain bs where
      bs: "length bs = unat n - 1 - unat (i + 1)"
        "arrived (spi_in s2) = bs @ arrived (spi_in s')"
        "trace s' = trace s2 @ concat (map read_ready bs)"
        "c' = c + b + sum_list bs"
        "body_ack_in s' = body_ack_in s2"
      by blast
    have "length (b # bs) = unat n - 1 - unat i"
      using bs(1) lt by (simp add: uint8_succ [OF lt'])
    moreover have "arrived (spi_in s) = (b # bs) @ arrived (spi_in s')"
      using spin_spif_arrived [OF p] bs(2) by (simp add: s2_eq)
    moreover have "trace s' = trace s @ concat (map read_ready (b # bs))"
      using bs(3) by (simp add: s2_eq)
    moreover have "c' = c + sum_list (b # bs)"
      using bs(4) by (simp add: add.assoc)
    moreover have "body_ack_in s' = body_ack_in s"
      using bs(5) by (simp add: s2_eq)
    ultimately show ?thesis by blast
  qed
qed

lemma readLoop_total:
  "unat n - 1 - unat i + m \<le> length (arrived (spi_in s)) \<Longrightarrow>
   \<exists>c' s'. readLoop i n c s = Inr (c', s') \<and> m \<le> length (arrived (spi_in s'))
      \<and> body_ack_in s' = body_ack_in s"
proof (induction i n c s rule: readLoop.induct)
  case (1 i n c s)
  show ?case
  proof (cases "uint i < uint n - 1")
    case False
    then have "unat n - 1 - unat i = 0" by (simp add: uint8_less_pred)
    with False "1.prems" show ?thesis by (simp add: readLoop.simps)
  next
    case True
    then have lt: "Suc (unat i) < unat n" by (simp add: uint8_less_pred)
    from True have lt': "uint i < uint n" by simp
    from lt "1.prems" have "Suc (unat n - 1 - Suc (unat i) + m) \<le> length (arrived (spi_in s))"
      by simp
    from spin_spif_more [OF this] obtain b rest where
      p: "spin_spif (spi_in s) = Some (b, rest)"
      and p': "unat n - 1 - Suc (unat i) + m \<le> length (arrived rest)"
      by blast
    define s1 where "s1 = s\<lparr>spi_in := rest, rx_buf := b,
                  trace := trace s @ readByte_trace b\<rparr>"
    define s2 where "s2 = s\<lparr>spi_in := rest, rx_buf := b, trace := trace s @ read_ready b\<rparr>"
    have s1: "readByte s = Inr (b, s1)"
      by (simp add: readByte_eq p s1_def readByte_trace_def)
    have s2: "run [digitalWrite LENS_ACK False, digitalWrite LENS_ACK True] s1 = Inr s2"
      by (simp add: digitalWrite_eq s1_def s2_def read_ready_def)
    have "\<exists>c' s'. readLoop (i + 1) n (c + b) s2 = Inr (c', s')
        \<and> m \<le> length (arrived (spi_in s')) \<and> body_ack_in s' = body_ack_in s2"
      using p' by (intro "1.IH" [OF True s1 refl s2]) (simp add: s2_def uint8_succ [OF lt'])
    then show ?thesis
      using True s1 s2 by (subst readLoop.simps) (auto simp: s2_def)
  qed
qed

lemma reply_eq:
  "(case readByte s of Inl e \<Rightarrow> Inl e
    | Inr (b, s2) \<Rightarrow>
       (case run [digitalWrite LENS_ACK False, waitBodyFall, digitalWrite LENS_ACK True,
                  waitBodyHigh] s2 of
          Inl e \<Rightarrow> Inl e
        | Inr s3 \<Rightarrow> writeByte (c + b) s3)) =
   (case spin_spif (spi_in s) of
      None \<Rightarrow> Inl Hang
    | Some (b, p1) \<Rightarrow>
       (case spin True (body_ack_in s) of
          None \<Rightarrow> Inl Hang
        | Some r1 \<Rightarrow>
           (case spin False r1 of
              None \<Rightarrow> Inl Hang
            | Some r2 \<Rightarrow>
               (case spin True r2 of
                  None \<Rightarrow> Inl Hang
                | Some r3 \<Rightarrow>
                   (case spin_spif p1 of
                      None \<Rightarrow> Inl Hang
                    | Some (b', p2) \<Rightarrow>
                       Inr (s\<lparr>body_ack_in := r3, spi_in := p2, rx_buf := b',
                              trace := trace s @ read_reply b (c + b)\<rparr>))))))"
  by (simp add: readByte_eq digitalWrite_eq waitBodyFall_eq waitBodyHigh_eq writeByte_eq
       read_reply_def readByte_trace_def saw_fall_def saw_high_def writeByte_trace_def
       split: option.splits)

lemma readBytesChecksum_Inr:
  assumes "readBytesChecksum n s = Inr s'"
  shows "\<exists>bs b rest. length bs = unat n - 1
           \<and> arrived (spi_in s) = bs @ b # rest
           \<and> trace s' = trace s @ concat (map read_ready bs) @ read_reply b (sum_list (bs @ [b]))"
proof -
  from assms obtain c s1 where
    lp: "readLoop 0 n 0 s = Inr (c, s1)"
    and rest: "(case readByte s1 of Inl e \<Rightarrow> Inl e
       | Inr (b, s2) \<Rightarrow>
         (case run [digitalWrite LENS_ACK False, waitBodyFall, digitalWrite LENS_ACK True,
                  waitBodyHigh] s2 of
            Inl e \<Rightarrow> Inl e
          | Inr s3 \<Rightarrow> writeByte (c + b) s3)) = Inr s'"
    unfolding readBytesChecksum_def by (auto split: sum.splits)
  from readLoop_Inr [OF lp] obtain bs where
    bs: "length bs = unat n - 1" "arrived (spi_in s) = bs @ arrived (spi_in s1)"
      "trace s1 = trace s @ concat (map read_ready bs)" "c = sum_list bs"
    by auto
  from rest obtain b p1 where
    p: "spin_spif (spi_in s1) = Some (b, p1)"
    and tr: "trace s' = trace s1 @ read_reply b (c + b)"
    unfolding reply_eq by (auto split: option.splits)
  from spin_spif_arrived [OF p] bs(2) have "arrived (spi_in s) = bs @ b # arrived p1"
    by simp
  with bs(1) bs(3) bs(4) tr show ?thesis by auto
qed

lemma readLoop_bound_zero: "readLoop i 0 c s = Inr (c, s)"
proof -
  have "uint (0 :: uint8) - 1 = - 1" by simp
  moreover have "\<not> uint i < - 1" using uint_ge_0 [of i] by linarith
  ultimately have "\<not> uint i < uint (0 :: uint8) - 1" by simp
  then show ?thesis by (subst readLoop.simps) (simp only: if_False)
qed

lemma readLoop_bound_one: "readLoop 0 1 c s = Inr (c, s)"
  by (simp add: readLoop.simps)

lemma readLoop_sleep: "readLoop i n c s = Inr (c', s') \<Longrightarrow> sleep_in s' = sleep_in s"
proof (induction i n c s rule: readLoop.induct)
  case (1 i n c s)
  show ?case
  proof (cases "uint i < uint n - 1")
    case False
    with "1.prems" show ?thesis by (simp add: readLoop.simps)
  next
    case True
    from True "1.prems" obtain b s1 s2 where
      s1: "readByte s = Inr (b, s1)"
      and s2: "run [digitalWrite LENS_ACK False, digitalWrite LENS_ACK True] s1 = Inr s2"
      and rec: "readLoop (i + 1) n (c + b) s2 = Inr (c', s')"
      by (subst (asm) readLoop.simps) (auto split: sum.splits)
    from s1 s2 have "sleep_in s2 = sleep_in s"
      by (auto simp: readByte_eq digitalWrite_eq split: option.splits)
    with "1.IH" [OF True s1 refl s2 rec] show ?thesis by simp
  qed
qed

lemma writeLoop_sleep: "writeLoop i n vs c s = Inr (c', s') \<Longrightarrow> sleep_in s' = sleep_in s"
proof (induction i n vs c s rule: writeLoop.induct)
  case (1 i n vs c s)
  show ?case
  proof (cases "uint i < uint n")
    case False
    with "1.prems" show ?thesis by (simp add: writeLoop.simps)
  next
    case True
    from True "1.prems" obtain s1 where
      s1: "run [waitBodyLow, digitalWrite LENS_ACK False, digitalWrite LENS_ACK True] s = Inr s1"
      by (subst (asm) writeLoop.simps) (auto split: sum.splits)
    from True "1.prems" s1 have inb: "unat i < length vs"
      by (subst (asm) writeLoop.simps) (auto split: sum.splits if_splits)
    from True "1.prems" s1 inb obtain s2 where
      s2: "writeByte (vs ! unat i) s1 = Inr s2"
      and rec: "writeLoop (i + 1) n vs (c + vs ! unat i) s2 = Inr (c', s')"
      by (subst (asm) writeLoop.simps) (auto split: sum.splits)
    have "sleep_in s2 = sleep_in s"
      using s1 s2 write_cycle_eq [where s = s and v = "vs ! unat i"]
      by (auto split: option.splits)
    with "1.IH" [OF True s1 inb s2 rec] show ?thesis by simp
  qed
qed

lemma needs_act: "needs (act e) [] [] 0"
  by (simp add: needs_def enough_def act_def emit_def)

lemma needs_pollBodyAck: "needs (pollBodyAck w) [] [w] 0"
  unfolding needs_def enough_def
proof (intro allI impI)
  fix sl' ws' :: "bool list" and m' :: nat and s :: hw
  assume a: "subseq ([] @ sl') (sleep_in s) \<and> subseq ([w] @ ws') (body_ack_in s)
      \<and> 0 + m' \<le> length (arrived (spi_in s))"
  then obtain rest where "spin w (body_ack_in s) = Some rest" "subseq ws' rest"
    using spin_subseq [of w ws' "body_ack_in s"] by auto
  with a show "\<exists>s'. pollBodyAck w s = Inr s' \<and> subseq sl' (sleep_in s')
      \<and> subseq ws' (body_ack_in s') \<and> m' \<le> length (arrived (spi_in s'))"
    by (simp add: pollBodyAck_def emit_def)
qed

lemma needs_pollSleep: "needs (pollSleep w) [w] [] 0"
  unfolding needs_def enough_def
proof (intro allI impI)
  fix sl' ws' :: "bool list" and m' :: nat and s :: hw
  assume a: "subseq ([w] @ sl') (sleep_in s) \<and> subseq ([] @ ws') (body_ack_in s)
      \<and> 0 + m' \<le> length (arrived (spi_in s))"
  then obtain rest where "spin w (sleep_in s) = Some rest" "subseq sl' rest"
    using spin_subseq [of w sl' "sleep_in s"] by auto
  with a show "\<exists>s'. pollSleep w s = Inr s' \<and> subseq sl' (sleep_in s')
      \<and> subseq ws' (body_ack_in s') \<and> m' \<le> length (arrived (spi_in s'))"
    by (simp add: pollSleep_def emit_def)
qed

lemma needs_pollSPIF: "needs pollSPIF [] [] 1"
  unfolding needs_def enough_def
proof (intro allI impI)
  fix sl' ws' :: "bool list" and m' :: nat and s :: hw
  assume a: "subseq ([] @ sl') (sleep_in s) \<and> subseq ([] @ ws') (body_ack_in s)
      \<and> 1 + m' \<le> length (arrived (spi_in s))"
  then obtain b rest where "spin_spif (spi_in s) = Some (b, rest)" "m' \<le> length (arrived rest)"
    using spin_spif_more [of m' "spi_in s"] by auto
  with a show "\<exists>s'. pollSPIF s = Inr s' \<and> subseq sl' (sleep_in s')
      \<and> subseq ws' (body_ack_in s') \<and> m' \<le> length (arrived (spi_in s'))"
    by (simp add: pollSPIF_def emit_def)
qed

lemma needs_run_Nil: "needs (run []) [] [] 0"
  by (simp add: needs_def)

lemma needs_run_Cons:
  assumes f: "needs f a b c" and fs: "needs (run fs) a' b' c'"
  shows "needs (run (f # fs)) (a @ a') (b @ b') (c + c')"
  unfolding needs_def
proof (intro allI impI)
  fix sl' ws' :: "bool list" and m' :: nat and s :: hw
  assume "enough ((a @ a') @ sl') ((b @ b') @ ws') (c + c' + m') s"
  then have "enough (a @ (a' @ sl')) (b @ (b' @ ws')) (c + (c' + m')) s"
    by (simp add: add.assoc)
  with f obtain s1 where s1: "f s = Inr s1" and e1: "enough (a' @ sl') (b' @ ws') (c' + m') s1"
    unfolding needs_def by blast
  from fs e1 obtain s' where "run fs s1 = Inr s'" "enough sl' ws' m' s'"
    unfolding needs_def by blast
  with s1 show "\<exists>s'. run (f # fs) s = Inr s' \<and> enough sl' ws' m' s'" by simp
qed

lemma needs_eq:
  "needs f a b c \<Longrightarrow> a = a' \<Longrightarrow> b = b' \<Longrightarrow> c = c' \<Longrightarrow> needs f a' b' c'"
  by simp

lemma needs_waitBodyFall: "needs waitBodyFall [] [True, False] 0"
  unfolding waitBodyFall_def
  by (rule needs_eq, (rule needs_run_Cons needs_run_Nil needs_pollBodyAck)+) simp_all

lemma needs_waitBodyRise: "needs waitBodyRise [] [False, True] 0"
  unfolding waitBodyRise_def
  by (rule needs_eq, (rule needs_run_Cons needs_run_Nil needs_pollBodyAck)+) simp_all

lemma needs_waitBodyLow: "needs waitBodyLow [] [False] 0"
  unfolding waitBodyLow_def delayMicroseconds_def
  by (rule needs_eq, (rule needs_run_Cons needs_run_Nil needs_pollBodyAck needs_act)+) simp_all

lemma needs_waitBodyHigh: "needs waitBodyHigh [] [True] 0"
  unfolding waitBodyHigh_def delayMicroseconds_def
  by (rule needs_eq, (rule needs_run_Cons needs_run_Nil needs_pollBodyAck needs_act)+) simp_all

lemma needs_writeByte: "needs (writeByte v) [] [] 1"
  unfolding writeByte_def set_SPDR_def pinMode_def
  by (rule needs_eq, (rule needs_run_Cons needs_run_Nil needs_pollSPIF needs_act)+) simp_all

lemma needs_setup_pins: "needs setup_pins [] [] 0"
  unfolding setup_pins_def set_SPCR_def pinMode_def
  by (rule needs_eq, (rule needs_run_Cons needs_run_Nil needs_act)+) simp_all

lemma needs_readBytesChecksum: "needs (readBytesChecksum n) [] [True, False, True] (unat n - 1 + 2)"
  unfolding needs_def
proof (intro allI impI)
  fix sl' ws' :: "bool list" and m' :: nat and s :: hw
  assume "enough ([] @ sl') ([True, False, True] @ ws') (unat n - 1 + 2 + m') s"
  then have sl: "subseq sl' (sleep_in s)"
    and ack: "subseq (True # False # True # ws') (body_ack_in s)"
    and spi: "unat n - 1 - unat (0 :: uint8) + (2 + m') \<le> length (arrived (spi_in s))"
    by (simp_all add: enough_def)
  from readLoop_total [OF spi, of 0] obtain c s1 where
    lp: "readLoop 0 n 0 s = Inr (c, s1)"
    and q: "2 + m' \<le> length (arrived (spi_in s1))"
    and a: "body_ack_in s1 = body_ack_in s"
    by blast
  from readLoop_sleep [OF lp] have z: "sleep_in s1 = sleep_in s" .
  from q obtain b p1 where p1: "spin_spif (spi_in s1) = Some (b, p1)"
    and q1: "Suc m' \<le> length (arrived p1)"
    using spin_spif_more [of "Suc m'" "spi_in s1"] by auto
  from q1 obtain b' p2 where p2: "spin_spif p1 = Some (b', p2)"
    and q2: "m' \<le> length (arrived p2)"
    using spin_spif_more [of m' p1] by auto
  from ack a obtain r1 where r1: "spin True (body_ack_in s1) = Some r1"
    and r1': "subseq (False # True # ws') r1"
    using spin_subseq [of True "False # True # ws'" "body_ack_in s"] by auto
  from r1' obtain r2 where r2: "spin False r1 = Some r2" and r2': "subseq (True # ws') r2"
    using spin_subseq [of False "True # ws'" r1] by auto
  from r2' obtain r3 where r3: "spin True r2 = Some r3" and r3': "subseq ws' r3"
    using spin_subseq [of True ws' r2] by auto
  have "\<exists>s'. (case readByte s1 of Inl e \<Rightarrow> Inl e
       | Inr (b, s2) \<Rightarrow>
         (case run [digitalWrite LENS_ACK False, waitBodyFall, digitalWrite LENS_ACK True,
                  waitBodyHigh] s2 of
            Inl e \<Rightarrow> Inl e
          | Inr s3 \<Rightarrow> writeByte (c + b) s3)) = Inr s' \<and> enough sl' ws' m' s'"
    unfolding reply_eq using sl q2 r3' by (simp add: p1 p2 r1 r2 r3 enough_def z)
  then show "\<exists>s'. readBytesChecksum n s = Inr s' \<and> enough sl' ws' m' s'"
    unfolding readBytesChecksum_def by (simp add: lp del: run.simps)
qed

lemma needs_writeBytesChecksum:
  assumes len: "unat n \<le> length vals"
  shows "needs (writeBytesChecksum n vals) [] (True # replicate (unat n + 2) False) (unat n + 2)"
  unfolding needs_def
proof (intro allI impI)
  fix sl' ws' :: "bool list" and m' :: nat and s :: hw
  assume "enough ([] @ sl') ((True # replicate (unat n + 2) False) @ ws') (unat n + 2 + m') s"
  then have sl: "subseq sl' (sleep_in s)"
    and ack: "subseq (True # False # replicate (unat n) False @ False # ws') (body_ack_in s)"
    and spi: "Suc (unat n + (1 + m')) \<le> length (arrived (spi_in s))"
    by (simp_all add: enough_def replicate_app_Cons_same)
  from ack obtain r1 where r1: "spin True (body_ack_in s) = Some r1"
    and r1': "subseq (False # replicate (unat n) False @ False # ws') r1"
    using spin_subseq [of True _ "body_ack_in s"] by blast
  from r1' obtain r2 where r2: "spin False r1 = Some r2"
    and r2': "subseq (replicate (unat n) False @ False # ws') r2"
    using spin_subseq [of False _ r1] by blast
  from spin_spif_more [OF spi] obtain b p1 where p1: "spin_spif (spi_in s) = Some (b, p1)"
    and p1': "unat n + (1 + m') \<le> length (arrived p1)"
    by blast
  define s1 where "s1 = s\<lparr>body_ack_in := r2, spi_in := p1, rx_buf := b,
                      trace := trace s @ handshake_write saw_fall n\<rparr>"
  have s1: "run [waitBodyFall, digitalWrite LENS_ACK False, digitalWrite LENS_ACK True, writeByte n] s = Inr s1"
    unfolding header_eq by (simp add: r1 r2 p1 s1_def)
  have "\<exists>c s2. writeLoop 0 n vals 0 s1 = Inr (c, s2) \<and> subseq (False # ws') (body_ack_in s2)
      \<and> 1 + m' \<le> length (arrived (spi_in s2))"
    using r2' p1' len by (intro writeLoop_total) (simp_all add: s1_def)
  then obtain c s2 where lp: "writeLoop 0 n vals 0 s1 = Inr (c, s2)"
    and a2: "subseq (False # ws') (body_ack_in s2)"
    and q2: "Suc m' \<le> length (arrived (spi_in s2))"
    by auto
  from writeLoop_sleep [OF lp] have z: "sleep_in s2 = sleep_in s" by (simp add: s1_def)
  from a2 obtain r3 where r3: "spin False (body_ack_in s2) = Some r3" and r3': "subseq ws' r3"
    using spin_subseq [of False ws' "body_ack_in s2"] by auto
  from spin_spif_more [OF q2] obtain b' p3 where p3: "spin_spif (spi_in s2) = Some (b', p3)"
    and p3': "m' \<le> length (arrived p3)"
    by blast
  have "\<exists>s'. run [waitBodyLow, digitalWrite LENS_ACK False, digitalWrite LENS_ACK True, writeByte c] s2 = Inr s'
      \<and> enough sl' ws' m' s'"
    unfolding trailer_eq using sl r3' p3' by (simp add: r3 p3 enough_def z)
  then show "\<exists>s'. writeBytesChecksum n vals s = Inr s' \<and> enough sl' ws' m' s'"
    unfolding writeBytesChecksum_def by (simp add: s1 lp del: run.simps)
qed

lemma writeBytesChecksum_total:
  assumes len: "length P = unat n"
    and ack: "subseq (True # replicate (unat n + 2) False) (body_ack_in s)"
    and spi: "unat n + 2 \<le> length (arrived (spi_in s))"
  shows "\<exists>s'. writeBytesChecksum n P s = Inr s'"
proof -
  from ack spi have "enough ([] @ []) ((True # replicate (unat n + 2) False) @ []) (unat n + 2 + 0) s"
    by (simp add: enough_def)
  moreover from len have "needs (writeBytesChecksum n P) [] (True # replicate (unat n + 2) False) (unat n + 2)"
    by (intro needs_writeBytesChecksum) simp
  ultimately show ?thesis unfolding needs_def by blast
qed

lemma readBytesChecksum_total:
  assumes ack: "subseq [True, False, True] (body_ack_in s)"
    and spi: "unat n - 1 + 2 \<le> length (arrived (spi_in s))"
  shows "\<exists>s'. readBytesChecksum n s = Inr s'"
proof -
  from ack spi have "enough ([] @ []) ([True, False, True] @ []) (unat n - 1 + 2 + 0) s"
    by (simp add: enough_def)
  with needs_readBytesChecksum [of n] show ?thesis unfolding needs_def by blast
qed

lemma needs_exec:
  assumes "in_bounds c"
  shows "needs (exec c) (sleep_need c) (ack_need c) (spi_need c)"
proof (cases c)
  case (WriteByte v)
  with needs_writeByte [of v] show ?thesis by simp
next
  case (ReadBytesChecksum n)
  with needs_readBytesChecksum [of n] show ?thesis by simp
next
  case (WriteBytesChecksum n vals)
  with assms needs_writeBytesChecksum [of n vals] show ?thesis by simp
qed (simp_all add: needs_act needs_setup_pins needs_pollSleep needs_waitBodyFall
        needs_waitBodyRise needs_waitBodyLow needs_waitBodyHigh
        digitalWrite_def delay_def set_SPCR_def)

lemma needs_run_exec:
  "list_all in_bounds cs \<Longrightarrow>
   needs (run (map exec cs)) (concat (map sleep_need cs)) (concat (map ack_need cs))
     (sum_list (map spi_need cs))"
proof (induction cs)
  case Nil
  show ?case by (simp add: needs_def)
next
  case (Cons c cs)
  then have b: "in_bounds c"
    and rest: "needs (run (map exec cs)) (concat (map sleep_need cs)) (concat (map ack_need cs))
       (sum_list (map spi_need cs))"
    by simp_all
  from needs_run_Cons [OF needs_exec [OF b] rest] show ?case
    by (simp del: run.simps)
qed

lemma main_script_total:
  assumes "True \<in> set (sleep_in s)"
    and "subseq (concat (map ack_need main_calls)) (body_ack_in s)"
    and "sum_list (map spi_need main_calls) \<le> length (arrived (spi_in s))"
  shows "\<exists>s'. main_script s = Inr s'"
proof -
  have b: "list_all in_bounds main_calls"
    by (simp add: main_calls_def sendBytes_def sendBytes2_def)
  have sl: "concat (map sleep_need main_calls) = [True]"
    by (simp add: main_calls_def)
  from assms(1) have "subseq [True] (sleep_in s)" by (simp add: subseq_singleton_left)
  with assms(2,3) have "enough (concat (map sleep_need main_calls) @ [])
     (concat (map ack_need main_calls) @ []) (sum_list (map spi_need main_calls) + 0) s"
    by (simp add: enough_def sl)
  with needs_run_exec [OF b] show ?thesis
    unfolding needs_def main_script_def by blast
qed

lemma standby_never_leaves: "standby turns s = Still_looping s"
  by (induction turns) (simp_all add: standbyBody_def)

lemma arrived_replicate: "arrived (replicate k (Some b)) = replicate k b"
  by (induction k) simp_all

lemma spin_spif_flags:
  "spif_flags xs = spif_flags ys \<Longrightarrow>
   (spin_spif xs = None \<and> spin_spif ys = None)
   \<or> (\<exists>b r b' r'. spin_spif xs = Some (b, r) \<and> spin_spif ys = Some (b', r')
         \<and> spif_flags r = spif_flags r')"
proof (induction xs arbitrary: ys rule: spin_spif.induct)
  case 1
  then show ?case by (simp add: spif_flags_def)
next
  case (2 xs)
  then obtain y ys' where ys: "ys = y # ys'" by (cases ys) (auto simp: spif_flags_def)
  with 2 have y: "y = None" and fl: "spif_flags xs = spif_flags ys'"
    by (auto simp: spif_flags_def)
  from "2.IH" [OF fl] show ?case by (simp add: ys y)
next
  case (3 b xs)
  then obtain y ys' where ys: "ys = y # ys'" by (cases ys) (auto simp: spif_flags_def)
  with 3 obtain b' where y: "y = Some b'" and fl: "spif_flags xs = spif_flags ys'"
    by (auto simp: spif_flags_def)
  then show ?case by (simp add: ys y)
qed

lemma arrived_flags: "length (arrived xs) = length (filter id (spif_flags xs))"
  by (induction xs rule: arrived.induct) (simp_all add: spif_flags_def)

lemma indep_act: "blank e = blank e' \<Longrightarrow> indep (act e) (act e')"
  by (simp add: indep_def act_def emit_def sim_def)

lemma indep_pollBodyAck: "indep (pollBodyAck w) (pollBodyAck w)"
  by (auto simp: indep_def pollBodyAck_def emit_def sim_def split: option.splits)

lemma indep_pollSleep: "indep (pollSleep w) (pollSleep w)"
  by (auto simp: indep_def pollSleep_def emit_def sim_def split: option.splits)

lemma indep_pollSPIF: "indep pollSPIF pollSPIF"
  unfolding indep_def
proof (intro allI impI)
  fix s t :: hw assume "sim s t"
  with spin_spif_flags [of "spi_in s" "spi_in t"]
  show "rel_sum (=) sim (pollSPIF s) (pollSPIF t)"
    by (auto simp: pollSPIF_def emit_def sim_def)
qed

lemma indep_run_Nil: "indep (run []) (run [])"
  by (simp add: indep_def)

lemma indep_run_Cons:
  assumes "indep f g" and "indep (run fs) (run gs)"
  shows "indep (run (f # fs)) (run (g # gs))"
  unfolding indep_def
proof (intro allI impI)
  fix s t :: hw assume "sim s t"
  with assms(1) have "rel_sum (=) sim (f s) (g t)" by (simp add: indep_def)
  then show "rel_sum (=) sim (run (f # fs) s) (run (g # gs) t)"
    using assms(2) by (cases rule: rel_sum.cases) (auto simp: indep_def)
qed

lemmas indep_steps = indep_run_Cons indep_run_Nil indep_pollBodyAck indep_pollSleep
  indep_pollSPIF indep_act

lemma indep_writeByte: "indep (writeByte v) (writeByte v')"
  unfolding writeByte_def set_SPDR_def pinMode_def
  by (intro indep_steps) simp_all

lemma indep_waitBodyFall: "indep waitBodyFall waitBodyFall"
  unfolding waitBodyFall_def by (intro indep_steps)

lemma indep_waitBodyRise: "indep waitBodyRise waitBodyRise"
  unfolding waitBodyRise_def by (intro indep_steps)

lemma indep_waitBodyLow: "indep waitBodyLow waitBodyLow"
  unfolding waitBodyLow_def delayMicroseconds_def by (intro indep_steps) simp_all

lemma indep_waitBodyHigh: "indep waitBodyHigh waitBodyHigh"
  unfolding waitBodyHigh_def delayMicroseconds_def by (intro indep_steps) simp_all

lemma indep_digitalWrite: "indep (digitalWrite p v) (digitalWrite p v)"
  unfolding digitalWrite_def by (intro indep_steps) simp_all

lemma indep_setup_pins: "indep setup_pins setup_pins"
  unfolding setup_pins_def set_SPCR_def pinMode_def
  by (intro indep_steps) simp_all

lemma sim_readByte: "sim s t \<Longrightarrow> rel_sum (=) sim_val (readByte s) (readByte t)"
  using spin_spif_flags [of "spi_in s" "spi_in t"]
  by (auto simp: readByte_eq sim_def sim_val_def)

lemma sim_readLoop:
  "sim s t \<Longrightarrow> rel_sum (=) sim_val (readLoop i n c s) (readLoop i n c' t)"
proof (induction i n c s arbitrary: c' t rule: readLoop.induct)
  case (1 i n c s)
  show ?case
  proof (cases "uint i < uint n - 1")
    case False
    with "1.prems" show ?thesis by (simp add: readLoop.simps sim_val_def)
  next
    case True
    from sim_readByte [OF "1.prems"] consider
      (fails) e where "readByte s = Inl e" "readByte t = Inl e"
    | (reads) b s1 b' t1 where "readByte s = Inr (b, s1)" "readByte t = Inr (b', t1)" "sim s1 t1"
      by (cases "readByte s"; cases "readByte t") (auto simp: sim_val_def)
    then show ?thesis
    proof cases
      case fails
      with True show ?thesis by (simp add: readLoop.simps [of i])
    next
      case reads
      have "indep (run [digitalWrite LENS_ACK False, digitalWrite LENS_ACK True])
                  (run [digitalWrite LENS_ACK False, digitalWrite LENS_ACK True])"
        by (intro indep_steps indep_digitalWrite)
      with reads(3) have "rel_sum (=) sim
           (run [digitalWrite LENS_ACK False, digitalWrite LENS_ACK True] s1)
           (run [digitalWrite LENS_ACK False, digitalWrite LENS_ACK True] t1)"
        by (simp add: indep_def del: run.simps)
      then consider
        (stops) e where
          "run [digitalWrite LENS_ACK False, digitalWrite LENS_ACK True] s1 = Inl e"
          "run [digitalWrite LENS_ACK False, digitalWrite LENS_ACK True] t1 = Inl e"
      | (goes) s2 t2 where
          "run [digitalWrite LENS_ACK False, digitalWrite LENS_ACK True] s1 = Inr s2"
          "run [digitalWrite LENS_ACK False, digitalWrite LENS_ACK True] t1 = Inr t2"
          "sim s2 t2"
        by (cases "run [digitalWrite LENS_ACK False, digitalWrite LENS_ACK True] s1";
            cases "run [digitalWrite LENS_ACK False, digitalWrite LENS_ACK True] t1")
           (auto simp del: run.simps)
      then show ?thesis
      proof cases
        case stops
        with True reads show ?thesis
          by (simp add: readLoop.simps [of i] del: run.simps)
      next
        case goes
        from "1.IH" [OF True reads(1) refl goes(1) goes(3)]
        have "rel_sum (=) sim_val (readLoop (i + 1) n (c + b) s2) (readLoop (i + 1) n (c' + b') t2)" .
        with True reads goes show ?thesis
          by (simp add: readLoop.simps [of i] del: run.simps)
      qed
    qed
  qed
qed

lemma indepD: "indep f g \<Longrightarrow> sim s t \<Longrightarrow>
  (\<exists>e. f s = Inl e \<and> g t = Inl e) \<or> (\<exists>s' t'. f s = Inr s' \<and> g t = Inr t' \<and> sim s' t')"
proof -
  assume "indep f g" and "sim s t"
  then have "rel_sum (=) sim (f s) (g t)" by (simp add: indep_def)
  then show ?thesis by (cases "f s"; cases "g t") auto
qed

lemma indep_readBytesChecksum: "indep (readBytesChecksum n) (readBytesChecksum n)"
  unfolding indep_def
proof (intro allI impI)
  fix s t :: hw assume st: "sim s t"
  from sim_readLoop [OF st, of 0 n 0 0] consider
    (fails) e where "readLoop 0 n 0 s = Inl e" "readLoop 0 n 0 t = Inl e"
  | (loops) c s1 c' t1 where "readLoop 0 n 0 s = Inr (c, s1)" "readLoop 0 n 0 t = Inr (c', t1)"
      "sim s1 t1"
    by (cases "readLoop 0 n 0 s"; cases "readLoop 0 n 0 t") (auto simp: sim_val_def)
  then show "rel_sum (=) sim (readBytesChecksum n s) (readBytesChecksum n t)"
  proof cases
    case fails
    then show ?thesis by (simp add: readBytesChecksum_def)
  next
    case loops
    from sim_readByte [OF loops(3)] consider
      (fails) e where "readByte s1 = Inl e" "readByte t1 = Inl e"
    | (reads) b s2 b' t2 where "readByte s1 = Inr (b, s2)" "readByte t1 = Inr (b', t2)" "sim s2 t2"
      by (cases "readByte s1"; cases "readByte t1") (auto simp: sim_val_def)
    then show ?thesis
    proof cases
      case fails
      with loops show ?thesis by (simp add: readBytesChecksum_def)
    next
      case reads
      have "indep (run [digitalWrite LENS_ACK False, waitBodyFall, digitalWrite LENS_ACK True,
                        waitBodyHigh])
                  (run [digitalWrite LENS_ACK False, waitBodyFall, digitalWrite LENS_ACK True,
                        waitBodyHigh])"
        by (intro indep_steps indep_digitalWrite indep_waitBodyFall indep_waitBodyHigh)
      from indepD [OF this reads(3)] show ?thesis
      proof (elim disjE exE conjE)
        fix e assume "run [digitalWrite LENS_ACK False, waitBodyFall, digitalWrite LENS_ACK True,
                        waitBodyHigh] s2 = Inl e"
          "run [digitalWrite LENS_ACK False, waitBodyFall, digitalWrite LENS_ACK True,
                        waitBodyHigh] t2 = Inl e"
        with loops reads show ?thesis
          by (simp add: readBytesChecksum_def del: run.simps)
      next
        fix s3 t3 assume r: "run [digitalWrite LENS_ACK False, waitBodyFall, digitalWrite LENS_ACK True,
                        waitBodyHigh] s2 = Inr s3"
          "run [digitalWrite LENS_ACK False, waitBodyFall, digitalWrite LENS_ACK True,
                        waitBodyHigh] t2 = Inr t3" and s3: "sim s3 t3"
        from indep_writeByte [of "c + b" "c' + b'"] s3
        have "rel_sum (=) sim (writeByte (c + b) s3) (writeByte (c' + b') t3)"
          by (simp add: indep_def)
        with loops reads r show ?thesis
          by (simp add: readBytesChecksum_def del: run.simps)
      qed
    qed
  qed
qed

lemma sim_writeLoop:
  "sim s t \<Longrightarrow> rel_sum (=) sim_val (writeLoop i n vs c s) (writeLoop i n vs c t)"
proof (induction i n vs c s arbitrary: t rule: writeLoop.induct)
  case (1 i n vs c s)
  show ?case
  proof (cases "uint i < uint n")
    case False
    with "1.prems" show ?thesis by (simp add: writeLoop.simps sim_val_def)
  next
    case True
    have "indep (run [waitBodyLow, digitalWrite LENS_ACK False, digitalWrite LENS_ACK True])
                (run [waitBodyLow, digitalWrite LENS_ACK False, digitalWrite LENS_ACK True])"
      by (intro indep_steps indep_digitalWrite indep_waitBodyLow)
    from indepD [OF this "1.prems"] show ?thesis
    proof (elim disjE exE conjE)
      fix e assume "run [waitBodyLow, digitalWrite LENS_ACK False, digitalWrite LENS_ACK True] s = Inl e"
        "run [waitBodyLow, digitalWrite LENS_ACK False, digitalWrite LENS_ACK True] t = Inl e"
      with True show ?thesis
        by (simp add: writeLoop.simps [of i] del: run.simps)
    next
      fix s1 t1 assume r: "run [waitBodyLow, digitalWrite LENS_ACK False, digitalWrite LENS_ACK True] s = Inr s1"
        "run [waitBodyLow, digitalWrite LENS_ACK False, digitalWrite LENS_ACK True] t = Inr t1"
        and s1: "sim s1 t1"
      show ?thesis
      proof (cases "unat i < length vs")
        case False
        with True r show ?thesis
          by (simp add: writeLoop.simps [of i] del: run.simps)
      next
        case inb: True
        from indepD [OF indep_writeByte [of "vs ! unat i" "vs ! unat i"] s1] show ?thesis
        proof (elim disjE exE conjE)
          fix e assume "writeByte (vs ! unat i) s1 = Inl e" "writeByte (vs ! unat i) t1 = Inl e"
          with True r inb show ?thesis
            by (simp add: writeLoop.simps [of i] del: run.simps)
        next
          fix s2 t2 assume w: "writeByte (vs ! unat i) s1 = Inr s2" "writeByte (vs ! unat i) t1 = Inr t2"
            and s2: "sim s2 t2"
          from "1.IH" [OF True r(1) inb w(1) s2]
          have "rel_sum (=) sim_val (writeLoop (i + 1) n vs (c + vs ! unat i) s2)
                  (writeLoop (i + 1) n vs (c + vs ! unat i) t2)" .
          with True r inb w show ?thesis
            by (simp add: writeLoop.simps [of i] del: run.simps)
        qed
      qed
    qed
  qed
qed

lemma indep_writeBytesChecksum: "indep (writeBytesChecksum n vs) (writeBytesChecksum n vs)"
  unfolding indep_def
proof (intro allI impI)
  fix s t :: hw assume st: "sim s t"
  have "indep (run [waitBodyFall, digitalWrite LENS_ACK False, digitalWrite LENS_ACK True, writeByte n])
              (run [waitBodyFall, digitalWrite LENS_ACK False, digitalWrite LENS_ACK True, writeByte n])"
    by (intro indep_steps indep_digitalWrite indep_waitBodyFall indep_writeByte)
  from indepD [OF this st] show "rel_sum (=) sim (writeBytesChecksum n vs s) (writeBytesChecksum n vs t)"
  proof (elim disjE exE conjE)
    fix e assume "run [waitBodyFall, digitalWrite LENS_ACK False, digitalWrite LENS_ACK True, writeByte n] s = Inl e"
      "run [waitBodyFall, digitalWrite LENS_ACK False, digitalWrite LENS_ACK True, writeByte n] t = Inl e"
    then show ?thesis by (simp add: writeBytesChecksum_def del: run.simps)
  next
    fix s1 t1 assume r: "run [waitBodyFall, digitalWrite LENS_ACK False, digitalWrite LENS_ACK True, writeByte n] s = Inr s1"
      "run [waitBodyFall, digitalWrite LENS_ACK False, digitalWrite LENS_ACK True, writeByte n] t = Inr t1"
      and s1: "sim s1 t1"
    from sim_writeLoop [OF s1, of 0 n vs 0] consider
      (fails) e where "writeLoop 0 n vs 0 s1 = Inl e" "writeLoop 0 n vs 0 t1 = Inl e"
    | (loops) c s2 c' t2 where "writeLoop 0 n vs 0 s1 = Inr (c, s2)"
        "writeLoop 0 n vs 0 t1 = Inr (c', t2)" "sim s2 t2"
      by (cases "writeLoop 0 n vs 0 s1"; cases "writeLoop 0 n vs 0 t1") (auto simp: sim_val_def)
    then show ?thesis
    proof cases
      case fails
      with r show ?thesis by (simp add: writeBytesChecksum_def del: run.simps)
    next
      case loops
      have "indep (run [waitBodyLow, digitalWrite LENS_ACK False, digitalWrite LENS_ACK True, writeByte c])
                  (run [waitBodyLow, digitalWrite LENS_ACK False, digitalWrite LENS_ACK True, writeByte c'])"
        by (intro indep_steps indep_digitalWrite indep_waitBodyLow indep_writeByte)
      with loops(3) have "rel_sum (=) sim
          (run [waitBodyLow, digitalWrite LENS_ACK False, digitalWrite LENS_ACK True, writeByte c] s2)
          (run [waitBodyLow, digitalWrite LENS_ACK False, digitalWrite LENS_ACK True, writeByte c'] t2)"
        by (simp add: indep_def del: run.simps)
      with r loops show ?thesis by (simp add: writeBytesChecksum_def del: run.simps)
    qed
  qed
qed

lemma indep_exec: "indep (exec c) (exec c)"
  by (cases c)
     (simp_all add: indep_act indep_setup_pins indep_pollSleep indep_waitBodyFall
        indep_waitBodyRise indep_waitBodyLow indep_waitBodyHigh indep_digitalWrite
        indep_writeByte indep_readBytesChecksum indep_writeBytesChecksum
        delay_def set_SPCR_def)

lemma indep_run_exec: "indep (run (map exec cs)) (run (map exec cs))"
proof (induction cs)
  case Nil
  show ?case by (simp add: indep_def)
next
  case (Cons c cs)
  from indep_run_Cons [OF indep_exec [of c] Cons] show ?case
    by (simp del: run.simps)
qed

lemma writeLoop_arrived:
  "writeLoop i n vs c s = Inr (c', s') \<Longrightarrow>
     arrived (spi_in s') = drop (unat n - unat i) (arrived (spi_in s))"
proof (induction i n vs c s rule: writeLoop.induct)
  case (1 i n vs c s)
  show ?case
  proof (cases "uint i < uint n")
    case False
    then have "unat n - unat i = 0" by (simp add: uint8_less_unat)
    with False "1.prems" show ?thesis by (simp add: writeLoop.simps)
  next
    case True
    then have lt: "unat i < unat n" by (simp add: uint8_less_unat)
    from True "1.prems" obtain s1 where
      s1: "run [waitBodyLow, digitalWrite LENS_ACK False, digitalWrite LENS_ACK True] s = Inr s1"
      by (subst (asm) writeLoop.simps) (auto split: sum.splits)
    from True "1.prems" s1 have inb: "unat i < length vs"
      by (subst (asm) writeLoop.simps) (auto split: sum.splits if_splits)
    from True "1.prems" s1 inb obtain s2 where
      s2: "writeByte (vs ! unat i) s1 = Inr s2"
      and rec: "writeLoop (i + 1) n vs (c + vs ! unat i) s2 = Inr (c', s')"
      by (subst (asm) writeLoop.simps) (auto split: sum.splits)
    from s1 s2 obtain b where "arrived (spi_in s) = b # arrived (spi_in s2)"
      using write_cycle_eq [where s = s and v = "vs ! unat i"]
      by (auto split: option.splits dest: spin_spif_arrived)
    moreover from lt have "unat n - unat i = Suc (unat n - Suc (unat i))" by simp
    ultimately show ?thesis
      using "1.IH" [OF True s1 inb s2 rec] by (simp add: uint8_succ [OF True])
  qed
qed

lemma writeBytesChecksum_effect:
  assumes ret: "writeBytesChecksum n vs s = Inr s'"
  shows "trace s' = trace s @ handshake_write saw_fall n
           @ concat (map (handshake_write saw_low) (take (unat n) vs @ [sum_list (take (unat n) vs)]))
       \<and> arrived (spi_in s') = drop (unat n + 2) (arrived (spi_in s))"
proof -
  from ret obtain s1 c s2 where
    s1: "run [waitBodyFall, digitalWrite LENS_ACK False, digitalWrite LENS_ACK True, writeByte n] s = Inr s1"
    and lp: "writeLoop 0 n vs 0 s1 = Inr (c, s2)"
    and fin: "run [waitBodyLow, digitalWrite LENS_ACK False, digitalWrite LENS_ACK True, writeByte c] s2 = Inr s'"
    unfolding writeBytesChecksum_def by (auto split: sum.splits)
  from s1 obtain b1 where
    t1: "trace s1 = trace s @ handshake_write saw_fall n"
    and a1: "arrived (spi_in s) = b1 # arrived (spi_in s1)"
    unfolding header_eq by (auto split: option.splits dest: spin_spif_arrived)
  from writeLoop_Inr [OF lp] have
    t2: "trace s2 = trace s1 @ concat (map (handshake_write saw_low) (take (unat n) vs))"
    and c: "c = sum_list (take (unat n) vs)"
    by simp_all
  from writeLoop_arrived [OF lp] have a2: "arrived (spi_in s2) = drop (unat n) (arrived (spi_in s1))"
    by simp
  from fin obtain b3 where
    t3: "trace s' = trace s2 @ handshake_write saw_low c"
    and a3: "arrived (spi_in s2) = b3 # arrived (spi_in s')"
    unfolding trailer_eq by (auto split: option.splits dest: spin_spif_arrived)
  from a2 a3 have "arrived (spi_in s') = drop (Suc (unat n)) (arrived (spi_in s1))"
    by (metis drop_Suc drop_drop list.sel(3) plus_1_eq_Suc tl_drop)
  with a1 have "arrived (spi_in s') = drop (unat n + 2) (arrived (spi_in s))" by simp
  with t1 t2 t3 c show ?thesis by simp
qed

lemma readBytesChecksum_effect:
  assumes "readBytesChecksum n s = Inr s'"
  shows "trace s' = trace s @ concat (map read_ready (take (unat n - 1) (arrived (spi_in s))))
            @ read_reply (arrived (spi_in s) ! (unat n - 1))
                (sum_list (take (unat n - 1 + 1) (arrived (spi_in s))))
       \<and> arrived (spi_in s') = drop (unat n - 1 + 2) (arrived (spi_in s))"
proof -
  from assms obtain c s1 where
    lp: "readLoop 0 n 0 s = Inr (c, s1)"
    and rest: "(case readByte s1 of Inl e \<Rightarrow> Inl e
       | Inr (b, s2) \<Rightarrow>
         (case run [digitalWrite LENS_ACK False, waitBodyFall, digitalWrite LENS_ACK True,
                  waitBodyHigh] s2 of
            Inl e \<Rightarrow> Inl e
          | Inr s3 \<Rightarrow> writeByte (c + b) s3)) = Inr s'"
    unfolding readBytesChecksum_def by (auto split: sum.splits)
  from readLoop_Inr [OF lp] obtain bs where
    bs: "length bs = unat n - 1" "arrived (spi_in s) = bs @ arrived (spi_in s1)"
      "trace s1 = trace s @ concat (map read_ready bs)" "c = sum_list bs"
    by auto
  from rest obtain b p1 b' where
    p: "spin_spif (spi_in s1) = Some (b, p1)"
    and p': "spin_spif p1 = Some (b', spi_in s')"
    and tr: "trace s' = trace s1 @ read_reply b (c + b)"
    unfolding reply_eq by (auto split: option.splits)
  from spin_spif_arrived [OF p] spin_spif_arrived [OF p'] bs(2)
  have all: "arrived (spi_in s) = bs @ b # b' # arrived (spi_in s')" by simp
  from all bs(1) have "take (unat n - 1) (arrived (spi_in s)) = bs"
    and "arrived (spi_in s) ! (unat n - 1) = b"
    and "take (unat n - 1 + 1) (arrived (spi_in s)) = bs @ [b]"
    and "drop (unat n - 1 + 2) (arrived (spi_in s)) = arrived (spi_in s')"
    by (simp_all add: nth_append)
  with bs(3) bs(4) tr show ?thesis by simp
qed

lemma exec_effect:
  assumes "exec c s = Inr s'"
  shows "trace s' = trace s @ call_trace c (arrived (spi_in s))
       \<and> arrived (spi_in s') = drop (spi_need c) (arrived (spi_in s))"
proof (cases c)
  case Setup
  with assms show ?thesis
    by (auto simp: setup_pins_def set_SPCR_def pinMode_def act_def emit_def)
next
  case AwaitSleep
  with assms show ?thesis
    by (auto simp: pollSleep_def emit_def split: option.splits)
next
  case WaitBodyFall
  with assms show ?thesis
    by (auto simp: waitBodyFall_eq saw_fall_def split: option.splits)
next
  case WaitBodyRise
  with assms show ?thesis
    by (auto simp: waitBodyRise_eq split: option.splits)
next
  case WaitBodyLow
  with assms show ?thesis
    by (auto simp: waitBodyLow_eq saw_low_def split: option.splits)
next
  case WaitBodyHigh
  with assms show ?thesis
    by (auto simp: waitBodyHigh_eq saw_high_def split: option.splits)
next
  case (WriteByte v)
  with assms show ?thesis
    by (auto simp: writeByte_eq writeByte_trace_def split: option.splits dest: spin_spif_arrived)
next
  case (ReadBytesChecksum n)
  with assms readBytesChecksum_effect [of n s s'] show ?thesis by simp
next
  case (WriteBytesChecksum n vals)
  with assms writeBytesChecksum_effect [of n vals s s'] show ?thesis by simp
qed (use assms in \<open>auto simp: act_def emit_def digitalWrite_def delay_def set_SPCR_def\<close>)

lemma run_exec_effect:
  "run (map exec cs) s = Inr s' \<Longrightarrow>
     trace s' = trace s @ script_trace cs (arrived (spi_in s))
     \<and> arrived (spi_in s') = drop (sum_list (map spi_need cs)) (arrived (spi_in s))"
proof (induction cs arbitrary: s)
  case Nil
  then show ?case by simp
next
  case (Cons c cs)
  then obtain s1 where s1: "exec c s = Inr s1" and r: "run (map exec cs) s1 = Inr s'"
    by (auto split: sum.splits)
  from exec_effect [OF s1] Cons.IH [OF r] show ?case
    by (simp add: add.commute)
qed

lemma readLoop_fault: "readLoop i n c s = Inl e \<Longrightarrow> e = Hang"
proof (induction i n c s rule: readLoop.induct)
  case (1 i n c s)
  show ?case
  proof (cases "uint i < uint n - 1")
    case False
    with "1.prems" show ?thesis by (simp add: readLoop.simps)
  next
    case True
    show ?thesis
    proof (cases "readByte s")
      case (Inl e')
      with True "1.prems" have "e' = e" by (simp add: readLoop.simps [of i])
      with Inl show ?thesis by (auto simp: readByte_eq split: option.splits)
    next
      case (Inr p)
      obtain b s1 where p: "p = (b, s1)" by (cases p)
      obtain s2 where s2: "run [digitalWrite LENS_ACK False, digitalWrite LENS_ACK True] s1 = Inr s2"
        by (simp add: digitalWrite_eq)
      with True Inr p "1.prems" have "readLoop (i + 1) n (c + b) s2 = Inl e"
        by (simp add: readLoop.simps [of i] del: run.simps)
      with "1.IH" [OF True _ refl s2] Inr p show ?thesis by simp
    qed
  qed
qed

lemma writeLoop_fault:
  "writeLoop i n vs c s = Inl e \<Longrightarrow> unat n \<le> length vs \<Longrightarrow> e = Hang"
proof (induction i n vs c s rule: writeLoop.induct)
  case (1 i n vs c s)
  show ?case
  proof (cases "uint i < uint n")
    case False
    with "1.prems" show ?thesis by (simp add: writeLoop.simps)
  next
    case True
    with "1.prems"(2) have inb: "unat i < length vs" by (simp add: uint8_less_unat)
    show ?thesis
    proof (cases "run [waitBodyLow, digitalWrite LENS_ACK False, digitalWrite LENS_ACK True] s")
      case (Inl e')
      with True "1.prems" have "e' = e" by (simp add: writeLoop.simps [of i] del: run.simps)
      with Inl show ?thesis
        by (auto simp: waitBodyLow_eq digitalWrite_eq split: option.splits)
    next
      case (Inr s1)
      show ?thesis
      proof (cases "writeByte (vs ! unat i) s1")
        case (Inl e')
        with True Inr inb "1.prems" have "e' = e"
          by (simp add: writeLoop.simps [of i] del: run.simps)
        with Inl show ?thesis by (auto simp: writeByte_eq split: option.splits)
      next
        case s2: (Inr s2)
        with True Inr inb "1.prems" have "writeLoop (i + 1) n vs (c + vs ! unat i) s2 = Inl e"
          by (simp add: writeLoop.simps [of i] del: run.simps)
        from "1.IH" [OF True Inr inb s2 this "1.prems"(2)] show ?thesis .
      qed
    qed
  qed
qed

lemma readBytesChecksum_fault: "readBytesChecksum n s = Inl e \<Longrightarrow> e = Hang"
  unfolding readBytesChecksum_def
  by (auto simp: readByte_eq digitalWrite_eq waitBodyFall_eq waitBodyHigh_eq writeByte_eq
        split: sum.splits option.splits dest: readLoop_fault)

lemma writeBytesChecksum_fault:
  "writeBytesChecksum n vs s = Inl e \<Longrightarrow> unat n \<le> length vs \<Longrightarrow> e = Hang"
  unfolding writeBytesChecksum_def
  by (auto simp: digitalWrite_eq waitBodyFall_eq waitBodyLow_eq writeByte_eq
        split: sum.splits option.splits dest: writeLoop_fault)

lemma exec_fault:
  assumes "exec c s = Inl e" and "in_bounds c"
  shows "e = Hang"
proof (cases c)
  case (ReadBytesChecksum n)
  with assms readBytesChecksum_fault [of n s e] show ?thesis by simp
next
  case (WriteBytesChecksum n vals)
  with assms writeBytesChecksum_fault [of n vals s e] show ?thesis by simp
qed (use assms in \<open>auto simp: act_def setup_pins_def set_SPCR_def pinMode_def pollSleep_def
        waitBodyFall_eq waitBodyRise_eq waitBodyLow_eq waitBodyHigh_eq writeByte_eq
        digitalWrite_def delay_def split: option.splits\<close>)

lemma run_exec_fault:
  "run (map exec cs) s = Inl e \<Longrightarrow> list_all in_bounds cs \<Longrightarrow> e = Hang"
proof (induction cs arbitrary: s)
  case Nil
  then show ?case by simp
next
  case (Cons c cs)
  show ?case
  proof (cases "exec c s")
    case (Inl e')
    with Cons.prems have "e' = e" and "in_bounds c" by simp_all
    with Inl exec_fault [of c s e] show ?thesis by simp
  next
    case (Inr s1)
    with Cons.prems have "run (map exec cs) s1 = Inl e" and "list_all in_bounds cs" by simp_all
    then show ?thesis by (rule Cons.IH)
  qed
qed

section \<open>The claims\<close>



text \<open>
  C2. For \<open>n\<close> at least 1, readBytesChecksum, when it returns, has read the first \<open>n\<close>
  bytes that arrived and has then written one byte, the sum modulo 256 of all \<open>n\<close> of
  them, the last one included. It does return when the body's line shows high, low, high
  and \<open>n + 1\<close> transfers complete.
\<close>

theorem readBytesChecksum_reply:
  assumes "n \<noteq> 0"
  shows "(\<forall>s'. readBytesChecksum n s = Inr s' \<longrightarrow>
            (\<exists>bs. bs = take (unat n) (arrived (spi_in s)) \<and> length bs = unat n
               \<and> trace s' = trace s @ concat (map read_ready (butlast bs))
                    @ read_reply (last bs) (word_of_nat (sum_list (map unat bs) mod 256))))
       \<and> (subseq [True, False, True] (body_ack_in s)
            \<and> unat n + 1 \<le> length (arrived (spi_in s))
          \<longrightarrow> (\<exists>s'. readBytesChecksum n s = Inr s'))"
proof (intro conjI allI impI)
  fix s' assume ret: "readBytesChecksum n s = Inr s'"
  from assms have pos: "0 < unat n" by (simp add: unat_gt_0)
  from readBytesChecksum_Inr [OF ret] obtain bs b rest where
    f: "length bs = unat n - 1" "arrived (spi_in s) = bs @ b # rest"
      "trace s' = trace s @ concat (map read_ready bs) @ read_reply b (sum_list (bs @ [b]))"
    by blast
  from f(1) pos have len: "length (bs @ [b]) = unat n" by simp
  with f(2) have tk: "take (unat n) (arrived (spi_in s)) = bs @ [b]"
    by (metis append.assoc append_Cons append_Nil append_eq_conv_conj)
  show "\<exists>bs. bs = take (unat n) (arrived (spi_in s)) \<and> length bs = unat n
               \<and> trace s' = trace s @ concat (map read_ready (butlast bs))
                    @ read_reply (last bs) (word_of_nat (sum_list (map unat bs) mod 256))"
    unfolding tk using len f(3) sum_list_uint8 [of "bs @ [b]"] by simp
next
  assume "subseq [True, False, True] (body_ack_in s) \<and> unat n + 1 \<le> length (arrived (spi_in s))"
  moreover from assms have "0 < unat n" by (simp add: unat_gt_0)
  ultimately show "\<exists>s'. readBytesChecksum n s = Inr s'"
    by (intro readBytesChecksum_total) simp_all
qed

theorem readBytesChecksum_reply_witness:
  "(3 :: uint8) \<noteq> 0
   \<and> subseq [True, False, True] (body_ack_in (env [True, True, False, True] [Some 200, None, Some 100, Some 1, Some 9]))
   \<and> unat (3 :: uint8) + 1 \<le> length (arrived (spi_in (env [True, True, False, True] [Some 200, None, Some 100, Some 1, Some 9])))
   \<and> (\<exists>s'. readBytesChecksum 3 (env [True, True, False, True] [Some 200, None, Some 100, Some 1, Some 9]) = Inr s'
        \<and> trace s' = read_ready 200 @ read_ready 100 @ read_reply 1 45)"
proof -
  let ?s = "env [True, True, False, True] [Some 200, None, Some 100, Some 1, Some 9]"
  have h1: "(3 :: uint8) \<noteq> 0" by simp
  have h2: "subseq [True, False, True] (body_ack_in ?s)" by (simp add: env_def)
  have h3: "unat (3 :: uint8) + 1 \<le> length (arrived (spi_in ?s))" by (simp add: env_def)
  have h4: "trace ?s = []" by (simp add: env_def)
  have h5: "take (unat (3 :: uint8)) (arrived (spi_in ?s)) = [200, 100, 1]" by (simp add: env_def)
  from readBytesChecksum_reply [OF h1, of ?s] h2 h3 obtain s' where
    "readBytesChecksum 3 ?s = Inr s'"
    "trace s' = trace ?s @ concat (map read_ready (butlast (take (unat (3 :: uint8)) (arrived (spi_in ?s)))))
       @ read_reply (last (take (unat (3 :: uint8)) (arrived (spi_in ?s))))
           (word_of_nat (sum_list (map unat (take (unat (3 :: uint8)) (arrived (spi_in ?s)))) mod 256))"
    by blast
  then have "readBytesChecksum 3 ?s = Inr s' \<and> trace s' = read_ready 200 @ read_ready 100 @ read_reply 1 45"
    unfolding h4 h5 by simp
  with h1 h2 h3 show ?thesis by blast
qed

text \<open>
  C3, as the code has it. The frame that main writes from \<open>sendBytes\<close> is the length
  byte 5, the five bytes, and the checksum 0xe7, which is
  (0x00 + 0x0a + 0x10 + 0xc4 + 0x09) mod 256; it is not 0xdd.
\<close>

theorem sendBytes_frame:
  "(\<forall>s'. writeBytesChecksum 5 sendBytes s = Inr s' \<longrightarrow>
      trace s' = trace s @ handshake_write saw_fall 5
        @ concat (map (handshake_write saw_low) [0x00, 0x0a, 0x10, 0xc4, 0x09, 0xe7]))
   \<and> WriteBytesChecksum 5 sendBytes \<in> set main_calls"
proof -
  have len: "length sendBytes = unat (5 :: uint8)" by (simp add: sendBytes_def)
  have "sendBytes @ [sum_list sendBytes] = [0x00, 0x0a, 0x10, 0xc4, 0x09, 0xe7]"
    by (simp add: sendBytes_def)
  with writeBytesChecksum_Inr [OF len, of s] show ?thesis
    by (simp add: main_calls_def)
qed

theorem sendBytes_frame_witness:
  "\<exists>s'. writeBytesChecksum 5 sendBytes
          (env [True, False, False, False, False, False, False, False]
               [Some 0, Some 0, Some 0, Some 0, Some 0, Some 0, Some 0]) = Inr s'
     \<and> trace s' = handshake_write saw_fall 5
        @ concat (map (handshake_write saw_low) [0x00, 0x0a, 0x10, 0xc4, 0x09, 0xe7])"
proof -
  let ?s = "env [True, False, False, False, False, False, False, False]
               [Some 0, Some 0, Some 0, Some 0, Some 0, Some 0, Some 0]"
  have len: "length sendBytes = unat (5 :: uint8)" by (simp add: sendBytes_def)
  have u: "unat (5 :: uint8) + 2 = Suc (Suc (Suc (Suc (Suc (Suc (Suc 0))))))" by simp
  have ack: "subseq (True # replicate (unat (5 :: uint8) + 2) False) (body_ack_in ?s)"
    unfolding u by (simp add: env_def)
  have spi: "unat (5 :: uint8) + 2 \<le> length (arrived (spi_in ?s))" by (simp add: env_def)
  from writeBytesChecksum_total [OF len ack spi] obtain s' where
    r: "writeBytesChecksum 5 sendBytes ?s = Inr s'" by blast
  have "trace ?s = []" by (simp add: env_def)
  with sendBytes_frame [of ?s] r show ?thesis by auto
qed

theorem sendBytes_checksum_counterexample:
  "map_sum id trace
     (writeBytesChecksum 5 sendBytes
        (env [True, False, False, False, False, False, False, False]
             [Some 0, Some 0, Some 0, Some 0, Some 0, Some 0, Some 0]))
   \<noteq> Inr (handshake_write saw_fall 5
          @ concat (map (handshake_write saw_low) [0x00, 0x0a, 0x10, 0xc4, 0x09, 0xdd]))
   \<and> map_sum id trace
     (writeBytesChecksum 5 sendBytes
        (env [True, False, False, False, False, False, False, False]
             [Some 0, Some 0, Some 0, Some 0, Some 0, Some 0, Some 0]))
   = Inr (handshake_write saw_fall 5
          @ concat (map (handshake_write saw_low) [0x00, 0x0a, 0x10, 0xc4, 0x09, 0xe7]))
   \<and> (0x00 + 0x0a + 0x10 + 0xc4 + 0x09) mod 256 = (0xe7 :: nat)"
proof -
  let ?s = "env [True, False, False, False, False, False, False, False]
               [Some 0, Some 0, Some 0, Some 0, Some 0, Some 0, Some 0]"
  have len: "length sendBytes = unat (5 :: uint8)" by (simp add: sendBytes_def)
  have u: "unat (5 :: uint8) + 2 = Suc (Suc (Suc (Suc (Suc (Suc (Suc 0))))))" by simp
  have ack: "subseq (True # replicate (unat (5 :: uint8) + 2) False) (body_ack_in ?s)"
    unfolding u by (simp add: env_def)
  have spi: "unat (5 :: uint8) + 2 \<le> length (arrived (spi_in ?s))" by (simp add: env_def)
  from writeBytesChecksum_total [OF len ack spi] obtain s' where
    r: "writeBytesChecksum 5 sendBytes ?s = Inr s'" by blast
  have e: "sendBytes @ [sum_list sendBytes] = [0x00, 0x0a, 0x10, 0xc4, 0x09, 0xe7]"
    by (simp add: sendBytes_def)
  have "trace ?s = []" by (simp add: env_def)
  with writeBytesChecksum_Inr [OF len r] e have
    t: "trace s' = handshake_write saw_fall 5
          @ concat (map (handshake_write saw_low) [0x00, 0x0a, 0x10, 0xc4, 0x09, 0xe7])"
    by simp
  show ?thesis unfolding r
    by (simp add: t handshake_write_def writeByte_trace_def)
qed

text \<open>
  C4, as the code has it. The documented precondition of readBytesChecksum is
  \<open>nBytes > 0\<close>, but a call with 0 is well defined: the bound \<open>nBytes - 1\<close> is computed in
  int and is -1, it does not wrap to 255, so the loop body never runs, from any \<open>i\<close>; the
  call then reads one byte and replies with that byte as checksum, and it returns as soon
  as the body's line shows high, low, high and two transfers complete.
\<close>

theorem readBytesChecksum_zero_defined:
  "readLoop i 0 checksum s = Inr (checksum, s)
   \<and> (\<forall>s'. readBytesChecksum 0 s = Inr s' \<longrightarrow>
        (\<exists>b rest. arrived (spi_in s) = b # rest \<and> trace s' = trace s @ read_reply b b))
   \<and> (subseq [True, False, True] (body_ack_in s) \<and> 2 \<le> length (arrived (spi_in s))
        \<longrightarrow> (\<exists>s'. readBytesChecksum 0 s = Inr s'))"
proof (intro conjI allI impI)
  show "readLoop i 0 checksum s = Inr (checksum, s)" by (rule readLoop_bound_zero)
next
  fix s' assume "readBytesChecksum 0 s = Inr s'"
  from readBytesChecksum_Inr [OF this]
  show "\<exists>b rest. arrived (spi_in s) = b # rest \<and> trace s' = trace s @ read_reply b b"
    by auto
next
  assume "subseq [True, False, True] (body_ack_in s) \<and> 2 \<le> length (arrived (spi_in s))"
  then show "\<exists>s'. readBytesChecksum 0 s = Inr s'"
    by (intro readBytesChecksum_total) simp_all
qed

theorem readBytesChecksum_zero_defined_witness:
  "subseq [True, False, True] (body_ack_in (env [True, False, True] [Some 0x5a, Some 0]))
   \<and> 2 \<le> length (arrived (spi_in (env [True, False, True] [Some 0x5a, Some 0])))
   \<and> (\<exists>s'. readBytesChecksum 0 (env [True, False, True] [Some 0x5a, Some 0]) = Inr s'
        \<and> trace s' = read_reply 0x5a 0x5a)"
proof -
  let ?s = "env [True, False, True] [Some 0x5a, Some 0]"
  have h1: "subseq [True, False, True] (body_ack_in ?s)" by (simp add: env_def)
  have h2: "2 \<le> length (arrived (spi_in ?s))" by (simp add: env_def)
  have h3: "trace ?s = []" and h4: "arrived (spi_in ?s) = [0x5a, 0]" by (simp_all add: env_def)
  from readBytesChecksum_zero_defined [of 0 0 ?s] h1 h2 show ?thesis
    unfolding h3 h4 by auto
qed

theorem readBytesChecksum_zero_counterexample:
  "\<not> uint (0 :: uint8) < uint (0 :: uint8) - 1
   \<and> uint (0 :: uint8) - 1 = - 1
   \<and> uint ((0 :: uint8) - 1) = 255
   \<and> readLoop 0 0 0 (env [True, False, True] [Some 0x5a, Some 0])
       = Inr (0, env [True, False, True] [Some 0x5a, Some 0])
   \<and> map_sum id trace (readBytesChecksum 0 (env [True, False, True] [Some 0x5a, Some 0]))
       = Inr (read_reply 0x5a 0x5a)"
  by (simp add: readLoop_bound_zero readBytesChecksum_def reply_eq env_def
        unsigned_minus_1_eq_mask mask_eq_exp_minus_1 del: run.simps)

text \<open>
  C5, as the code has it. The script reads six frames, each of length 4, and writes three:
  \<open>sendBytes\<close> with length 5, \<open>sendBytes2\<close> with length 21, and \<open>sendBytes2\<close> again with
  length 2, which sends the first two of its 21 bytes.
\<close>

theorem main_frames:
  "List.map_filter read_length main_calls = [4, 4, 4, 4, 4, 4]
   \<and> List.map_filter write_frame main_calls = [(5, sendBytes), (21, sendBytes2), (2, sendBytes2)]
   \<and> length sendBytes = 5 \<and> length sendBytes2 = 21"
  by (simp add: main_calls_def List.map_filter_simps sendBytes_def sendBytes2_def)

theorem main_frames_counterexample:
  "WriteBytesChecksum 2 sendBytes2 \<in> set main_calls \<and> (2 :: uint8) \<noteq> 5 \<and> (2 :: uint8) \<noteq> 21"
  by (simp add: main_calls_def)



text \<open>
  C7. Nothing compares a received byte with anything. Take two machines that differ only
  in the bytes the body sends. Every call of the script, and the whole script, fails with
  the same fault on both or returns on both, leaving machines that again differ only in
  bytes. What a call that returns has added to the trace is a fixed function of the bytes
  that arrived, in which a received byte shows only where it is read and in the reply of
  readBytesChecksum, always their plain sum; it has consumed a fixed number of transfers;
  and the same holds for the whole script. The only failure of a call or of the script is
  a wait that never ends. And for \<open>n\<close> at least 1, readBytesChecksum returns on the second
  machine as soon as the first one's line shows high, low, high and \<open>n + 1\<close> transfers
  complete there.
\<close>

theorem received_bytes_never_checked:
  assumes "sim s t"
  shows "rel_sum (=) sim (exec c s) (exec c t)
     \<and> rel_sum (=) sim (main_script s) (main_script t)
     \<and> (\<forall>t'. exec c t = Inr t' \<longrightarrow>
           trace t' = trace t @ call_trace c (arrived (spi_in t))
           \<and> arrived (spi_in t') = drop (spi_need c) (arrived (spi_in t)))
     \<and> (\<forall>t'. main_script t = Inr t' \<longrightarrow>
           trace t' = trace t @ script_trace main_calls (arrived (spi_in t)))
     \<and> (\<forall>e. in_bounds c \<and> exec c t = Inl e \<longrightarrow> e = Hang)
     \<and> (\<forall>e. main_script t = Inl e \<longrightarrow> e = Hang)
     \<and> (n \<noteq> 0 \<and> subseq [True, False, True] (body_ack_in s)
          \<and> unat n + 1 \<le> length (arrived (spi_in s))
        \<longrightarrow> (\<exists>t'. readBytesChecksum n t = Inr t'))"
proof (intro conjI impI allI)
  from indep_exec [of c] assms show "rel_sum (=) sim (exec c s) (exec c t)"
    by (simp add: indep_def)
next
  from indep_run_exec [of main_calls] assms
  show "rel_sum (=) sim (main_script s) (main_script t)"
    by (simp add: indep_def main_script_def)
next
  fix t' assume "exec c t = Inr t'"
  from exec_effect [OF this]
  show "trace t' = trace t @ call_trace c (arrived (spi_in t))"
    and "arrived (spi_in t') = drop (spi_need c) (arrived (spi_in t))"
    by simp_all
next
  fix t' assume "main_script t = Inr t'"
  then have "run (map exec main_calls) t = Inr t'" by (simp add: main_script_def)
  from run_exec_effect [OF this]
  show "trace t' = trace t @ script_trace main_calls (arrived (spi_in t))" by simp
next
  fix e assume "in_bounds c \<and> exec c t = Inl e"
  then show "e = Hang" using exec_fault [of c t e] by simp
next
  fix e assume "main_script t = Inl e"
  then have "run (map exec main_calls) t = Inl e" by (simp add: main_script_def)
  moreover have "list_all in_bounds main_calls"
    by (simp add: main_calls_def sendBytes_def sendBytes2_def)
  ultimately show "e = Hang" by (rule run_exec_fault)
next
  assume a: "n \<noteq> 0 \<and> subseq [True, False, True] (body_ack_in s)
          \<and> unat n + 1 \<le> length (arrived (spi_in s))"
  then have "0 < unat n" by (simp add: unat_gt_0)
  moreover from assms have "body_ack_in t = body_ack_in s"
    and "length (arrived (spi_in t)) = length (arrived (spi_in s))"
    by (simp_all add: sim_def arrived_flags)
  ultimately show "\<exists>t'. readBytesChecksum n t = Inr t'"
    using a by (intro readBytesChecksum_total) simp_all
qed

theorem received_bytes_never_checked_witness:
  "sim (env [True, False, True] [Some 1, None, Some 2, Some 0])
       (env [True, False, True] [Some 0x80, None, Some 0xff, Some 0x55])
   \<and> (2 :: uint8) \<noteq> 0
   \<and> subseq [True, False, True] (body_ack_in (env [True, False, True] [Some 1, None, Some 2, Some 0]))
   \<and> unat (2 :: uint8) + 1 \<le> length (arrived (spi_in (env [True, False, True] [Some 1, None, Some 2, Some 0])))
   \<and> (\<exists>s' t'. readBytesChecksum 2 (env [True, False, True] [Some 1, None, Some 2, Some 0]) = Inr s'
         \<and> readBytesChecksum 2 (env [True, False, True] [Some 0x80, None, Some 0xff, Some 0x55]) = Inr t'
         \<and> sim s' t'
         \<and> trace t' = read_ready 0x80 @ read_reply 0xff 0x7f
         \<and> arrived (spi_in t') = [])
   \<and> (\<exists>m'. main_script (env (concat (map ack_need main_calls))
                 (replicate (sum_list (map spi_need main_calls)) (Some 0))) = Inr m'
         \<and> trace m' = script_trace main_calls (replicate (sum_list (map spi_need main_calls)) 0))
   \<and> in_bounds WaitBodyHigh
   \<and> exec WaitBodyHigh (env [] []) = Inl Hang
   \<and> main_script (env [] []) = Inl Hang"
proof -
  let ?s = "env [True, False, True] [Some 1, None, Some 2, Some 0]"
  let ?t = "env [True, False, True] [Some 0x80, None, Some 0xff, Some 0x55]"
  let ?m = "env (concat (map ack_need main_calls))
                (replicate (sum_list (map spi_need main_calls)) (Some 0))"
  have h1: "sim ?s ?t" by (simp add: sim_def env_def spif_flags_def)
  have h2: "(2 :: uint8) \<noteq> 0" by simp
  have h3: "subseq [True, False, True] (body_ack_in ?s)" by (simp add: env_def)
  have h4: "unat (2 :: uint8) + 1 \<le> length (arrived (spi_in ?s))" by (simp add: env_def)
  have h5: "trace ?t = []" and h6: "arrived (spi_in ?t) = [0x80, 0xff, 0x55]"
    by (simp_all add: env_def)
  have u: "unat (2 :: uint8) - 1 = Suc 0" by simp
  have w: "(383 :: uint8) = 127" by simp
  have ct: "call_trace (ReadBytesChecksum 2) [0x80, 0xff, 0x55] = read_ready 0x80 @ read_reply 0xff 0x7f"
    by (simp add: u, simp only: w)
  have sn: "spi_need (ReadBytesChecksum 2) = 3" by simp
  from received_bytes_never_checked [OF h1, of "ReadBytesChecksum 2" 2] h2 h3 h4
  obtain t' where t': "readBytesChecksum 2 ?t = Inr t'"
    and r: "rel_sum (=) sim (readBytesChecksum 2 ?s) (readBytesChecksum 2 ?t)"
    and e: "trace t' = trace ?t @ call_trace (ReadBytesChecksum 2) (arrived (spi_in ?t))"
      "arrived (spi_in t') = drop (spi_need (ReadBytesChecksum 2)) (arrived (spi_in ?t))"
    by auto
  from r t' obtain s' where s': "readBytesChecksum 2 ?s = Inr s'" "sim s' t'"
    by (cases "readBytesChecksum 2 ?s") auto
  from e have e': "trace t' = read_ready 0x80 @ read_reply 0xff 0x7f" "arrived (spi_in t') = []"
    unfolding h5 h6 ct sn by simp_all
  have m0: "sim ?m ?m" by (simp add: sim_def)
  have "True \<in> set (sleep_in ?m)" "subseq (concat (map ack_need main_calls)) (body_ack_in ?m)"
    "sum_list (map spi_need main_calls) \<le> length (arrived (spi_in ?m))"
    by (simp_all add: env_def arrived_replicate)
  from main_script_total [OF this] obtain m' where m': "main_script ?m = Inr m'" by blast
  have "trace ?m = []" "arrived (spi_in ?m) = replicate (sum_list (map spi_need main_calls)) 0"
    by (simp_all add: env_def arrived_replicate)
  with received_bytes_never_checked [OF m0, of Init 0] m'
  have tm: "trace m' = script_trace main_calls (replicate (sum_list (map spi_need main_calls)) 0)"
    by simp
  have x1: "exec WaitBodyHigh (env [] []) = Inl Hang"
    by (simp add: waitBodyHigh_eq env_def)
  have x2: "main_script (env [] []) = Inl Hang"
    by (simp add: main_script_def main_calls_def setup_pins_def set_SPCR_def pinMode_def
          act_def emit_def pollSleep_def waitBodyHigh_eq env_def)
  from h1 h2 h3 h4 t' s' e' m' tm x1 x2 show ?thesis by auto
qed

text \<open>
  C8. When the body lets the script through, main reaches its final loop, and after any
  number of turns it is still in that loop with the machine exactly as the script left it:
  nothing read, nothing added to the trace. The body of the loop is empty.
\<close>

theorem main_standby:
  assumes "True \<in> set (sleep_in s)"
    and "subseq (concat (map ack_need main_calls)) (body_ack_in s)"
    and "sum_list (map spi_need main_calls) \<le> length (arrived (spi_in s))"
  shows "\<exists>s'. main_script s = Inr s' \<and> (\<forall>turns. main turns s = Inr (Still_looping s'))
           \<and> standbyBody s' = s'"
  using main_script_total [OF assms]
  by (auto simp: main_def standby_never_leaves standbyBody_def)

theorem main_standby_witness:
  "True \<in> set (sleep_in (env (concat (map ack_need main_calls))
                       (replicate (sum_list (map spi_need main_calls)) (Some 0))))
   \<and> (\<exists>s'. main_script (env (concat (map ack_need main_calls))
                       (replicate (sum_list (map spi_need main_calls)) (Some 0))) = Inr s'
         \<and> main 1000 (env (concat (map ack_need main_calls))
                       (replicate (sum_list (map spi_need main_calls)) (Some 0)))
             = Inr (Still_looping s'))"
proof -
  let ?s = "env (concat (map ack_need main_calls))
                (replicate (sum_list (map spi_need main_calls)) (Some 0))"
  have h1: "True \<in> set (sleep_in ?s)" by (simp add: env_def)
  have h2: "subseq (concat (map ack_need main_calls)) (body_ack_in ?s)" by (simp add: env_def)
  have h3: "sum_list (map spi_need main_calls) \<le> length (arrived (spi_in ?s))"
    by (simp add: env_def arrived_replicate)
  from main_standby [OF h1 h2 h3] h1 show ?thesis by blast
qed

text \<open>
  C9. writeByte loads its argument into SPDR, makes MISO an output, waits for SPIF and
  then writes 0xFF, which is not zero, into SPDR, whatever the argument. It returns as
  soon as one transfer completes, and hangs before the last write if none ever does.
\<close>

theorem writeByte_sentinel:
  "(\<forall>s'. writeByte v s = Inr s' \<longrightarrow>
      trace s' = trace s @ [SPDR_write v, Pin_mode DATA_MISO OUTPUT, Saw_SPIF, SPDR_write 0xFF])
   \<and> (0xFF :: uint8) \<noteq> 0
   \<and> (arrived (spi_in s) \<noteq> [] \<longrightarrow> (\<exists>s'. writeByte v s = Inr s'))
   \<and> (arrived (spi_in s) = [] \<longrightarrow> writeByte v s = Inl Hang)"
  using spin_spif_None_iff [of "spi_in s"]
  by (auto simp: writeByte_eq split: option.splits)

theorem writeByte_sentinel_witness:
  "arrived (spi_in (env [] [None, None, Some 0])) \<noteq> []
   \<and> (\<exists>s'. writeByte 0 (env [] [None, None, Some 0]) = Inr s'
        \<and> trace s' = [SPDR_write 0, Pin_mode DATA_MISO OUTPUT, Saw_SPIF, SPDR_write 0xFF])
   \<and> arrived (spi_in (env [] [None, None])) = []
   \<and> writeByte 0 (env [] [None, None]) = Inl Hang"
proof -
  have h1: "arrived (spi_in (env [] [None, None, Some 0])) \<noteq> []" by (simp add: env_def)
  have h2: "arrived (spi_in (env [] [None, None])) = []" by (simp add: env_def)
  have h3: "trace (env [] [None, None, Some 0]) = []" by (simp add: env_def)
  from writeByte_sentinel [of 0 "env [] [None, None, Some 0]"] h1 h3
    writeByte_sentinel [of 0 "env [] [None, None]"] h2
  show ?thesis by auto
qed

text \<open>
  C10. readBytesChecksum 0 is readBytesChecksum 1: the bound \<open>nBytes - 1\<close> is compared after
  promotion to int, so the loop body runs zero times for both, and the call is one
  readByte, the handshake, and writeByte of the byte read.
\<close>

theorem readBytesChecksum_zero_as_one:
  "readBytesChecksum 0 s = readBytesChecksum 1 s
   \<and> readLoop 0 0 checksum s = Inr (checksum, s)
   \<and> readLoop 0 1 checksum s = Inr (checksum, s)
   \<and> readBytesChecksum 0 s =
       (case readByte s of
          Inl e \<Rightarrow> Inl e
        | Inr (b, s2) \<Rightarrow>
           (case run [digitalWrite LENS_ACK False, waitBodyFall, digitalWrite LENS_ACK True,
                      waitBodyHigh] s2 of
              Inl e \<Rightarrow> Inl e
            | Inr s3 \<Rightarrow> writeByte b s3))"
  unfolding readBytesChecksum_def
  by (simp add: readLoop_bound_zero readLoop_bound_one del: run.simps
        cong: sum.case_cong prod.case_cong)

end
